theory Spec2Isabelle
  imports Complex_Main "HOL-Library.AList"
begin

section \<open>Python values, errors and list access\<close>

text \<open>
  The exceptions the modelled Python code can raise. \<open>DrawsExhausted\<close> is not a Python
  exception: the random generator is modelled by finite lists of the results it hands
  out, and a resampling loop that uses up its list without accepting a draw ends in
  this value (the source would go on drawing).
\<close>

datatype error = IndexError | ValueError | KeyError | AssertionError | ZeroDivisionError
  | DrawsExhausted

definition bindE :: "error + 'a \<Rightarrow> ('a \<Rightarrow> error + 'b) \<Rightarrow> error + 'b" where
  "bindE m f = (case m of Inl e \<Rightarrow> Inl e | Inr x \<Rightarrow> f x)"

text \<open>
  Python resolves a list subscript \<open>i\<close> against a list of length \<open>n\<close>: a negative
  subscript counts from the end, and a subscript outside \<open>-n .. n-1\<close> raises.
\<close>

definition py_pos :: "nat \<Rightarrow> int \<Rightarrow> nat option" where
  "py_pos n i =
     (if 0 \<le> i \<and> i < int n then Some (nat i)
      else if i < 0 \<and> - int n \<le> i then Some (nat (int n + i))
      else None)"

text \<open>The read \<open>xs[i]\<close>.\<close>

definition py_get :: "'a list \<Rightarrow> int \<Rightarrow> error + 'a" where
  "py_get xs i = (case py_pos (length xs) i of None \<Rightarrow> Inl IndexError | Some j \<Rightarrow> Inr (xs ! j))"

text \<open>The item assignment \<open>xs[i] = v\<close>, returning the updated list.\<close>

definition py_set :: "'a list \<Rightarrow> int \<Rightarrow> 'a \<Rightarrow> error + 'a list" where
  "py_set xs i v =
     (case py_pos (length xs) i of None \<Rightarrow> Inl IndexError | Some j \<Rightarrow> Inr (xs[j := v]))"

text \<open>\<open>xs.index(v)\<close>: the first position holding \<open>v\<close>.\<close>

fun py_index :: "'a list \<Rightarrow> 'a \<Rightarrow> error + nat" where
  "py_index [] v = Inl ValueError"
| "py_index (x # xs) v =
     (if x = v then Inr 0 else bindE (py_index xs v) (\<lambda>i. Inr (Suc i)))"

section \<open>The Hamiltonian model (det_ops.py, class HAM)\<close>

text \<open>
  The fields of a \<open>HAM\<close> object. The tensors \<open>h1\<close> and \<open>h2\<close> are numpy arrays of
  extent \<open>spin_basis = 2 * nbasis\<close> in every dimension, filled from a file the
  repository does not hold: they are parameters here. Orbital indices are natural
  numbers; weights and integrals are real numbers (the floating-point rounding of the
  source is not modelled).
\<close>

record HAM =
  nelec :: int
  nbasis :: int
  h1 :: "nat \<Rightarrow> nat \<Rightarrow> real"
  h2 :: "nat \<Rightarrow> nat \<Rightarrow> nat \<Rightarrow> nat \<Rightarrow> real"
  nn :: real
  p_single :: real

definition spin_basis :: "HAM \<Rightarrow> int" where
  "spin_basis H = 2 * nbasis H"

text \<open>Array reads \<open>self.h1[p,q]\<close> and \<open>self.h2[p,q,r,s]\<close>, out of range an IndexError.\<close>

definition h1_at :: "HAM \<Rightarrow> nat \<Rightarrow> nat \<Rightarrow> error + real" where
  "h1_at H p q =
     (if int p < spin_basis H \<and> int q < spin_basis H then Inr (h1 H p q) else Inl IndexError)"

definition h2_at :: "HAM \<Rightarrow> nat \<Rightarrow> nat \<Rightarrow> nat \<Rightarrow> nat \<Rightarrow> error + real" where
  "h2_at H p q r s =
     (if int p < spin_basis H \<and> int q < spin_basis H \<and> int r < spin_basis H \<and> int s < spin_basis H
      then Inr (h2 H p q r s) else Inl IndexError)"

subsection \<open>slater_condon\<close>

text \<open>The inner loop of the diagonal branch: \<open>for q in det[pos+1:]: hel += h2[p,p,q,q] - h2[p,q,q,p]\<close>.\<close>

fun diag_inner :: "HAM \<Rightarrow> nat \<Rightarrow> nat list \<Rightarrow> real \<Rightarrow> error + real" where
  "diag_inner H p [] hel = Inr hel"
| "diag_inner H p (q # qs) hel =
     bindE (h2_at H p p q q) (\<lambda>a.
     bindE (h2_at H p q q p) (\<lambda>b.
     diag_inner H p qs (hel + (a - b))))"

text \<open>The outer loop \<open>for pos, p in enumerate(det)\<close>; the tail of the list is \<open>det[pos+1:]\<close>.\<close>

fun diag_outer :: "HAM \<Rightarrow> nat list \<Rightarrow> real \<Rightarrow> error + real" where
  "diag_outer H [] hel = Inr hel"
| "diag_outer H (p # rest) hel =
     bindE (h1_at H p p) (\<lambda>a.
     bindE (diag_inner H p rest (hel + a)) (\<lambda>hel'.
     diag_outer H rest hel'))"

text \<open>The loop of the single-excitation branch: \<open>for q in det: hel += h2[i,a,q,q] - h2[i,q,q,a]\<close>.\<close>

fun single_loop :: "HAM \<Rightarrow> nat \<Rightarrow> nat \<Rightarrow> nat list \<Rightarrow> real \<Rightarrow> error + real" where
  "single_loop H i a [] hel = Inr hel"
| "single_loop H i a (q # qs) hel =
     bindE (h2_at H i a q q) (\<lambda>x.
     bindE (h2_at H i q q a) (\<lambda>y.
     single_loop H i a qs (hel + (x - y))))"

text \<open>\<open>if parity is not None: hel *= parity\<close>.\<close>

definition apply_parity :: "int option \<Rightarrow> real \<Rightarrow> real" where
  "apply_parity parity hel = (case parity of None \<Rightarrow> hel | Some s \<Rightarrow> hel * real_of_int s)"

text \<open>
  An excitation descriptor \<open>excit_mat\<close> is a Python list of tuples, \<open>[(from...), (to...)]\<close>,
  or \<open>None\<close>: a \<open>nat list list option\<close>. \<open>excit_mat[k][l]\<close> is a double \<open>py_get\<close>.
\<close>

definition em_at :: "nat list list \<Rightarrow> int \<Rightarrow> int \<Rightarrow> error + nat" where
  "em_at em k l = bindE (py_get em k) (\<lambda>t. py_get t l)"

definition slater_condon ::
  "HAM \<Rightarrow> nat list \<Rightarrow> nat list \<Rightarrow> nat list list option \<Rightarrow> int option \<Rightarrow> error + real" where
  "slater_condon H det excited_det excit_mat parity =
     bindE
       (case excit_mat of
          None \<Rightarrow> diag_outer H det (nn H)
        | Some em \<Rightarrow>
            bindE (py_get em 0) (\<lambda>froms.
              if length froms = 1 then
                bindE (em_at em 0 0) (\<lambda>i.
                bindE (em_at em 1 0) (\<lambda>a.
                bindE (h1_at H i a) (\<lambda>hel.
                single_loop H i a det hel)))
              else if length froms = 2 then
                bindE (em_at em 0 0) (\<lambda>i.
                bindE (em_at em 1 0) (\<lambda>a.
                bindE (em_at em 0 1) (\<lambda>j.
                bindE (em_at em 1 1) (\<lambda>b.
                bindE (h2_at H i a j b) (\<lambda>x.
                bindE (h2_at H i b j a) (\<lambda>y.
                Inr (x - y)))))))
              else Inr 0))
       (\<lambda>hel. Inr (apply_parity parity hel))"

definition ham_example :: HAM where
  "ham_example = \<lparr>nelec = 2, nbasis = 2, h1 = (\<lambda>p q. real (p + q)),
     h2 = (\<lambda>p q r s. real (p + 2 * q + 3 * r + 4 * s)), nn = 5, p_single = 1 / 2\<rparr>"

section \<open>Determinant algebra (det_ops.py)\<close>

subsection \<open>elec_exchange_ops\<close>

text \<open>
  The direction of the bubbling, as the source chooses it: \<open>True\<close> stands for
  \<open>step = 1\<close> and \<open>False\<close> for \<open>step = -1\<close>. The last branch reads \<open>det[ind]\<close> and
  \<open>det[ind + 1]\<close>.
\<close>

definition exchange_step :: "nat list \<Rightarrow> int \<Rightarrow> error + bool" where
  "exchange_step det ind =
     (if ind = 0 then Inr True
      else if ind = - 1 \<or> ind = int (length det) - 1 then Inr False
      else bindE (py_get det ind) (\<lambda>x.
           bindE (py_get det (ind + 1)) (\<lambda>y.
           Inr (y < x))))"

definition step_of :: "bool \<Rightarrow> int" where
  "step_of up = (if up then 1 else - 1)"

text \<open>
  The loop \<open>while det_copy != sorted(det_copy)\<close>: one swap of the positions \<open>ind\<close> and
  \<open>ind + step\<close> per round. A subscript that leaves the list raises IndexError, which
  bounds the number of rounds.
\<close>

function exchange_loop :: "nat list \<Rightarrow> int \<Rightarrow> bool \<Rightarrow> nat \<Rightarrow> error + nat" where
  "exchange_loop det_copy ind up perm =
     (if det_copy = sort det_copy then Inr perm
      else
        (case py_get det_copy (ind + step_of up) of
           Inl e \<Rightarrow> Inl e
         | Inr tmp \<Rightarrow>
            (case py_get det_copy ind of
               Inl e \<Rightarrow> Inl e
             | Inr cur \<Rightarrow>
                (case py_set det_copy (ind + step_of up) cur of
                   Inl e \<Rightarrow> Inl e
                 | Inr d1 \<Rightarrow>
                    (case py_set d1 ind tmp of
                       Inl e \<Rightarrow> Inl e
                     | Inr d2 \<Rightarrow> exchange_loop d2 (ind + step_of up) up (perm + 1))))))"
  by pat_completeness auto
termination
proof (relation "measure (\<lambda>(dc, ind, up, perm).
         if up then nat (int (length dc) - ind) else nat (ind + int (length dc) + 1))")
  show "wf (measure (\<lambda>(dc, ind, up, perm).
         if up then nat (int (length dc) - ind) else nat (ind + int (length dc) + 1)))"
    by simp
next
  fix det_copy :: "nat list" and ind :: int and up :: bool and perm :: nat
    and tmp cur :: nat and d1 d2 :: "nat list"
  assume g: "py_get det_copy (ind + step_of up) = Inr tmp"
    and s1: "py_set det_copy (ind + step_of up) cur = Inr d1"
    and s2: "py_set d1 ind tmp = Inr d2"
  have l1: "length d1 = length det_copy"
    using s1 by (auto simp: py_set_def split: option.splits)
  have l2: "length d2 = length d1"
    using s2 by (auto simp: py_set_def split: option.splits)
  have r: "- int (length det_copy) \<le> ind + step_of up \<and> ind + step_of up < int (length det_copy)"
    using g by (auto simp: py_get_def py_pos_def split: option.splits if_splits)
  show "((d2, ind + step_of up, up, perm + 1), (det_copy, ind, up, perm))
        \<in> measure (\<lambda>(dc, ind, up, perm).
            if up then nat (int (length dc) - ind) else nat (ind + int (length dc) + 1))"
    using r l1 l2 by (auto simp: step_of_def)
qed

definition elec_exchange_ops :: "nat list \<Rightarrow> int \<Rightarrow> error + nat" where
  "elec_exchange_ops det ind =
     bindE (exchange_step det ind) (\<lambda>up. exchange_loop det ind up 0)"

subsection \<open>calc_excit_mat_parity\<close>

text \<open>\<open>enumerate(det)\<close>.\<close>

definition enumerate_list :: "'a list \<Rightarrow> (nat \<times> 'a) list" where
  "enumerate_list xs = zip [0..<length xs] xs"

text \<open>
  The loop \<open>for from_orb, to_orb in zip(from_orbs, to_orbs)\<close>: relabel one orbital of
  \<open>det_copy\<close>, count the exchanges, sort.
\<close>

fun relabel_loop :: "nat list \<Rightarrow> (nat \<times> nat) list \<Rightarrow> nat \<Rightarrow> error + nat" where
  "relabel_loop det_copy [] perm = Inr perm"
| "relabel_loop det_copy ((from_orb, to_orb) # rest) perm =
     bindE (py_index det_copy from_orb) (\<lambda>ind.
     bindE (py_set det_copy (int ind) to_orb) (\<lambda>dc.
     bindE (elec_exchange_ops dc (int ind)) (\<lambda>k.
     relabel_loop (sort dc) rest (perm + k))))"

definition calc_excit_mat_parity ::
  "nat list \<Rightarrow> nat list \<Rightarrow> error + (nat list list option \<times> int option)" where
  "calc_excit_mat_parity det excited_det =
     (let froms = filter (\<lambda>(from_ind, from_orb). from_orb \<notin> set excited_det) (enumerate_list det);
          from_inds = map fst froms;
          from_orbs = map snd froms;
          tos = filter (\<lambda>(to_ind, to_orb). to_orb \<notin> set det) (enumerate_list excited_det);
          to_inds = map fst tos;
          to_orbs = map snd tos
      in if length from_inds \<noteq> length to_inds then Inl AssertionError
         else
           (let excit_mat = [from_orbs, to_orbs]
            in bindE (relabel_loop det (zip from_orbs to_orbs) 0) (\<lambda>perm.
                 (let parity = (- 1) ^ perm
                  in if excit_mat = [] then Inr (None, None)
                     else Inr (Some excit_mat, Some parity)))))"

subsection \<open>excit_gen\<close>

text \<open>
  What numpy's generator hands out during one call of \<open>excit_gen\<close>, by call site:
  the result of \<open>random()\<close>, the result of the first \<open>randint(0, len(excited_det))\<close>,
  the results of the successive \<open>randint(0, 2 * nbasis)\<close> drawn for \<open>orb_to\<close>, and the
  successive pairs (\<open>randint(0, len(excited_det))\<close>, \<open>randint(0, 2 * nbasis)\<close>)
  drawn for the second substitution.
\<close>

record excit_draws =
  rnd_single :: real
  rnd_ind :: nat
  rnd_to :: "nat list"
  rnd_second :: "(nat \<times> nat) list"

text \<open>\<open>orb_to = randint(...)\<close>, then \<open>while orb_to in det: orb_to = randint(...)\<close>.\<close>

fun first_free :: "nat list \<Rightarrow> nat list \<Rightarrow> error + nat" where
  "first_free det [] = Inl DrawsExhausted"
| "first_free det (r # rs) = (if r \<in> set det then first_free det rs else Inr r)"

text \<open>
  The second substitution: draw \<open>ind\<close>, read \<open>orb_from_2 = excited_det[ind]\<close>, draw
  \<open>orb_to_2\<close>, and again while
  \<open>(orb_to_2 in excited_det) or (orb_to_2 == orb_from) or (orb_from_2 == orb_to)\<close>.
\<close>

fun second_draw :: "nat list \<Rightarrow> nat \<Rightarrow> nat \<Rightarrow> (nat \<times> nat) list \<Rightarrow> error + (nat \<times> nat \<times> nat)" where
  "second_draw excited_det orb_from orb_to [] = Inl DrawsExhausted"
| "second_draw excited_det orb_from orb_to ((ind, orb_to_2) # rest) =
     bindE (py_get excited_det (int ind)) (\<lambda>orb_from_2.
       if orb_to_2 \<in> set excited_det \<or> orb_to_2 = orb_from \<or> orb_from_2 = orb_to
       then second_draw excited_det orb_from orb_to rest
       else Inr (ind, orb_from_2, orb_to_2))"

text \<open>
  \<open>scipy.special.comb(N, 2)\<close> for an integer \<open>N\<close>, as scipy documents it: the number
  of pairs, and 0 when \<open>N < 2\<close>.
\<close>

definition comb2 :: "int \<Rightarrow> real" where
  "comb2 N = (if N < 2 then 0 else real (nat N choose 2))"

text \<open>
  A float result: a real number, or \<open>NonFinite\<close> for the \<open>inf\<close> or \<open>nan\<close> that numpy
  returns for a division by a zero of its own float type.
\<close>

datatype pyfloat = Finite real | NonFinite

definition excit_gen ::
  "HAM \<Rightarrow> nat list \<Rightarrow> excit_draws \<Rightarrow> error + (nat list \<times> nat list list \<times> int \<times> pyfloat)" where
  "excit_gen H det D =
     (let excited_det = det;
          single = (rnd_single D < p_single H)
      in if length excited_det = 0 then Inl ValueError
         else
           (let ind = int (rnd_ind D)
            in bindE (py_get excited_det ind) (\<lambda>orb_from.
               if 2 * nbasis H \<le> 0 then Inl ValueError
               else
                 bindE (first_free det (rnd_to D)) (\<lambda>orb_to.
                 bindE (py_set excited_det ind orb_to) (\<lambda>ed1.
                 bindE (elec_exchange_ops ed1 ind) (\<lambda>perm.
                 (let ed2 = sort ed1
                  in if single then
                       (if nelec H * (2 * nbasis H - nelec H) = 0 then Inl ZeroDivisionError
                        else Inr (ed2, [[orb_from], [orb_to]], (- 1) ^ perm,
                               Finite (p_single H / real_of_int (nelec H * (2 * nbasis H - nelec H)))))
                     else
                       bindE (second_draw ed2 orb_from orb_to (rnd_second D)) (\<lambda>(ind2, orb_from_2, orb_to_2).
                       bindE (py_set ed2 (int ind2) orb_to_2) (\<lambda>ed3.
                       bindE (elec_exchange_ops ed3 (int ind2)) (\<lambda>perm2.
                       (let denom = comb2 (2 * nbasis H - nelec H) * comb2 (nelec H);
                            prob = (if denom = 0 then NonFinite else Finite ((1 - p_single H) / denom))
                        in Inr (sort ed3, [[orb_from, orb_from_2], [orb_to, orb_to_2]],
                                (- 1) ^ (perm + perm2), prob))))))))))))"

definition draws_example :: excit_draws where
  "draws_example = \<lparr>rnd_single = 7 / 10, rnd_ind = 0, rnd_to = [2, 0, 3],
     rnd_second = [(1, 1), (0, 1), (1, 1)]\<rparr>"

section \<open>The population loop (fciqmc_partI.py)\<close>

text \<open>
  The script reads its parameters and statistics through objects of \<open>system.py\<close>,
  which the repository does not hold. The records below have the fields the loop
  reads and writes. The dense Hamiltonian \<open>full_h\<close> is a square numpy array of extent
  \<open>ndet\<close>, loaded from a file: a parameter.
\<close>

record params =
  timestep :: real
  det_thresh :: real
  shift :: real

record stats =
  cycle_en_num :: real
  cycle_en_denom :: real
  ref_weight :: real
  nw :: real
  nocc_dets :: nat

record dense =
  ndet :: nat
  full_h :: "nat \<Rightarrow> nat \<Rightarrow> real"

text \<open>
  What numpy's generator hands out, by kind of call: the results of \<open>random()\<close> and the
  results of \<open>randint(ndet)\<close>, each in the order of the calls.
\<close>

record rng =
  floats :: "real list"
  ints :: "nat list"

text \<open>
  A Python dict from determinant index to weight, as the list of its items in
  insertion order. \<open>d[k] = v\<close> is \<open>AList.update\<close> (in place for a key that is present,
  at the end for a new one), \<open>del d[k]\<close> is \<open>AList.delete\<close>, \<open>k in d\<close> and \<open>d[k]\<close> read
  \<open>map_of\<close>.
\<close>

type_synonym walker_dict = "(nat \<times> real) list"

record sim =
  walkers :: walker_dict
  spawned_walkers :: walker_dict
  sim_stats :: stats
  gen :: rng

text \<open>The array read \<open>full_h[i, j]\<close>.\<close>

definition h_at :: "dense \<Rightarrow> nat \<Rightarrow> nat \<Rightarrow> error + real" where
  "h_at Hd i j = (if i < ndet Hd \<and> j < ndet Hd then Inr (full_h Hd i j) else Inl IndexError)"

text \<open>\<open>h_sim = full_h - np.eye(ndet) * ref_energy\<close> with \<open>ref_energy = full_h[0,0]\<close>.\<close>

definition h_sim_at :: "dense \<Rightarrow> nat \<Rightarrow> nat \<Rightarrow> error + real" where
  "h_sim_at Hd i j =
     bindE (h_at Hd i j) (\<lambda>h. Inr (h - (if i = j then full_h Hd 0 0 else 0)))"

text \<open>
  The pattern \<open>if k in d: d[k] += w else: d[k] = w\<close>, which the source uses for the
  spawned-walker buffer and for the annihilation.
\<close>

definition dict_add :: "walker_dict \<Rightarrow> nat \<Rightarrow> real \<Rightarrow> walker_dict" where
  "dict_add d k w =
     (case map_of d k of
        Some v \<Rightarrow> AList.update k (v + w) d
      | None \<Rightarrow> AList.update k w d)"

text \<open>The energy accumulation at the head of the sweep body.\<close>

definition accumulate_energy :: "dense \<Rightarrow> nat \<Rightarrow> real \<Rightarrow> stats \<Rightarrow> error + stats" where
  "accumulate_energy Hd det_ind det_amp st =
     (if det_ind = 0 then
        Inr (st\<lparr>cycle_en_denom := cycle_en_denom st + det_amp, ref_weight := det_amp\<rparr>)
      else
        bindE (h_sim_at Hd det_ind 0) (\<lambda>h.
        Inr (st\<lparr>cycle_en_num := cycle_en_num st + det_amp * h\<rparr>)))"

text \<open>
  The stochastic rounding block. The result is the value of the local variable
  \<open>det_amp\<close> after the block, or \<open>None\<close> when the entry is deleted and the sweep goes on
  to the next determinant; with it the \<open>random()\<close> results that are left.
\<close>

definition stochastic_round :: "params \<Rightarrow> real \<Rightarrow> real list \<Rightarrow> error + (real option \<times> real list)" where
  "stochastic_round P det_amp fl =
     (if det_thresh P = 0 then Inl ZeroDivisionError
      else
        (let chi_fraction = \<bar>det_amp\<bar> / det_thresh P
         in if chi_fraction < 1 then
              (case fl of
                 [] \<Rightarrow> Inl DrawsExhausted
               | u # us \<Rightarrow> if u < chi_fraction then Inr (Some (det_thresh P), us) else Inr (None, us))
            else Inr (Some det_amp, fl)))"

text \<open>\<open>spawn_ind = randint(ndet)\<close>, then \<open>while spawn_ind == det_ind: spawn_ind = randint(ndet)\<close>.\<close>

fun draw_target :: "nat \<Rightarrow> nat list \<Rightarrow> error + (nat \<times> nat list)" where
  "draw_target det_ind [] = Inl DrawsExhausted"
| "draw_target det_ind (r # rs) = (if r = det_ind then draw_target det_ind rs else Inr (r, rs))"

text \<open>
  The loop \<open>for spawn_attempt in range(nspawn)\<close>; the fourth argument counts the
  attempts still to make. \<open>randint(0)\<close> raises ValueError and \<open>1./(ndet-1)\<close> raises
  ZeroDivisionError when \<open>ndet = 1\<close>.
\<close>

fun spawning ::
  "params \<Rightarrow> dense \<Rightarrow> nat \<Rightarrow> real \<Rightarrow> nat \<Rightarrow> nat \<Rightarrow> walker_dict \<Rightarrow> nat list \<Rightarrow> error + (walker_dict \<times> nat list)" where
  "spawning P Hd det_ind det_amp nspawn 0 spawned rs = Inr (spawned, rs)"
| "spawning P Hd det_ind det_amp nspawn (Suc todo) spawned rs =
     (if ndet Hd = 0 then Inl ValueError
      else
        bindE (draw_target det_ind rs) (\<lambda>(spawn_ind, rs').
          if ndet Hd = 1 then Inl ZeroDivisionError
          else
            (let p_spawn = 1 / real (ndet Hd - 1)
             in bindE (h_at Hd det_ind spawn_ind) (\<lambda>h.
                (let spawn_weight = - timestep P * h * det_amp / (p_spawn * real nspawn)
                 in spawning P Hd det_ind det_amp nspawn todo
                      (dict_add spawned spawn_ind spawn_weight) rs')))))"

text \<open>The death step \<open>walkers[det_ind] -= timestep * (full_h[d,d] - full_h[0,0] - shift) * det_amp\<close>.\<close>

definition death :: "params \<Rightarrow> dense \<Rightarrow> nat \<Rightarrow> real \<Rightarrow> walker_dict \<Rightarrow> error + walker_dict" where
  "death P Hd det_ind det_amp w =
     (case map_of w det_ind of
        None \<Rightarrow> Inl KeyError
      | Some v \<Rightarrow>
          bindE (h_at Hd det_ind det_ind) (\<lambda>hdd.
          bindE (h_at Hd 0 0) (\<lambda>h00.
          Inr (AList.update det_ind (v - timestep P * (hdd - h00 - shift P) * det_amp) w))))"

text \<open>The body of the sweep, for one item \<open>(det_ind, det_amp)\<close> of the snapshot.\<close>

definition process_det :: "params \<Rightarrow> dense \<Rightarrow> nat \<times> real \<Rightarrow> sim \<Rightarrow> error + sim" where
  "process_det P Hd item S =
     (case item of (det_ind, det_amp) \<Rightarrow>
        bindE (accumulate_energy Hd det_ind det_amp (sim_stats S)) (\<lambda>st1.
        bindE (stochastic_round P det_amp (floats (gen S))) (\<lambda>(kept, fl).
          case kept of
            None \<Rightarrow>
              (if map_of (walkers S) det_ind = None then Inl KeyError
               else Inr (S\<lparr>walkers := AList.delete det_ind (walkers S), sim_stats := st1,
                           gen := (gen S)\<lparr>floats := fl\<rparr>\<rparr>))
          | Some amp \<Rightarrow>
              (let st2 = st1\<lparr>nw := nw st1 + \<bar>amp\<bar>, nocc_dets := nocc_dets st1 + 1\<rparr>;
                   nspawn = nat \<lceil>\<bar>amp\<bar>\<rceil>
               in bindE (spawning P Hd det_ind amp nspawn nspawn (spawned_walkers S) (ints (gen S)))
                    (\<lambda>(spawned, rs).
                  bindE (death P Hd det_ind amp (walkers S)) (\<lambda>w.
                  Inr \<lparr>walkers = w, spawned_walkers = spawned, sim_stats = st2,
                       gen = \<lparr>floats = fl, ints = rs\<rparr>\<rparr>))))))"

text \<open>The sweep \<open>for det_ind, det_amp in list(walkers.items())\<close> over a snapshot.\<close>

fun sweep :: "params \<Rightarrow> dense \<Rightarrow> (nat \<times> real) list \<Rightarrow> sim \<Rightarrow> error + sim" where
  "sweep P Hd [] S = Inr S"
| "sweep P Hd (item # items) S = bindE (process_det P Hd item S) (sweep P Hd items)"

text \<open>The annihilation loop over \<open>spawned_walkers.items()\<close>.\<close>

fun annihilation :: "walker_dict \<Rightarrow> walker_dict \<Rightarrow> walker_dict" where
  "annihilation [] w = w"
| "annihilation ((spawn_ind, spawn_weight) # rest) w =
     annihilation rest (dict_add w spawn_ind spawn_weight)"

text \<open>
  One round of the main loop, up to the end of the annihilation. The periodic control
  that follows it calls \<open>update_shift\<close> and \<open>update_stats\<close> of \<open>system.py\<close> and is not
  part of the model.
\<close>

definition iteration :: "params \<Rightarrow> dense \<Rightarrow> sim \<Rightarrow> error + sim" where
  "iteration P Hd S =
     (let S0 = S\<lparr>spawned_walkers := [],
                  sim_stats := (sim_stats S)\<lparr>nw := 0, ref_weight := 0, nocc_dets := 0\<rparr>\<rparr>
      in bindE (sweep P Hd (walkers S0) S0) (\<lambda>S1.
         Inr (S1\<lparr>walkers := annihilation (spawned_walkers S1) (walkers S1)\<rparr>)))"

text \<open>A small run: the parameters of the script, a 3 x 3 Hamiltonian.\<close>

definition params_example :: params where
  "params_example = \<lparr>timestep = 1 / 100, det_thresh = 1 / 4, shift = 0\<rparr>"

definition dense_example :: dense where
  "dense_example = \<lparr>ndet = 3,
     full_h = (\<lambda>i j. if i = j then real i - 1
                     else if i + j = 1 then 1 / 2 else if i + j = 3 then 1 / 4 else 0)\<rparr>"

definition stats_zero :: stats where
  "stats_zero = \<lparr>cycle_en_num = 0, cycle_en_denom = 0, ref_weight = 0, nw = 0, nocc_dets = 0\<rparr>"

text \<open>
  The weight one spawn attempt adds for the target \<open>t\<close>: the expression
  \<open>-timestep * full_h[det_ind, spawn_ind] * det_amp / (p_spawn * nspawn)\<close> of the source with
  \<open>p_spawn = 1./(ndet-1)\<close>.
\<close>

definition spawn_weight_of :: "params \<Rightarrow> dense \<Rightarrow> nat \<Rightarrow> real \<Rightarrow> nat \<Rightarrow> nat \<Rightarrow> real" where
  "spawn_weight_of P Hd d w nspawn t =
     - timestep P * full_h Hd d t * w / (1 / real (ndet Hd - 1) * real nspawn)"

definition sim_example :: sim where
  "sim_example = \<lparr>walkers = [(0, 10), (1, - 1 / 10)], spawned_walkers = [], sim_stats = stats_zero,
     gen = \<lparr>floats = [1 / 10], ints = [1, 2]\<rparr>\<rparr>"

definition sim_example2 :: sim where
  "sim_example2 = \<lparr>walkers = [(0, 1), (2, 0), (1, 1 / 8)], spawned_walkers = [], sim_stats = stats_zero,
     gen = \<lparr>floats = [0, 3 / 4], ints = [1]\<rparr>\<rparr>"

definition sim_after2 :: sim where
  "sim_after2 = \<lparr>walkers = [(0, 1), (1, - 1 / 100)], spawned_walkers = [(1, - 1 / 100)],
     sim_stats = \<lparr>cycle_en_num = 1 / 16, cycle_en_denom = 1, ref_weight = 1, nw = 1, nocc_dets = 1\<rparr>,
     gen = \<lparr>floats = [], ints = []\<rparr>\<rparr>"

subsection \<open>The iteration as the specification describes it\<close>

text \<open>
  The generator's \<open>randint\<close> results that are left after \<open>todo\<close> targets other than
  \<open>det_ind\<close> have been taken: each target is the first result that differs from
  \<open>det_ind\<close>.
\<close>

fun skip_targets :: "nat \<Rightarrow> nat \<Rightarrow> nat list \<Rightarrow> nat list" where
  "skip_targets det_ind 0 rs = rs"
| "skip_targets det_ind (Suc todo) rs = skip_targets det_ind todo (tl (dropWhile (\<lambda>r. r = det_ind) rs))"

text \<open>
  Merging a list of (determinant, weight) pairs into a population, a map from
  determinant to weight: the weights for a determinant are added to its entry, or make
  a new entry when it has none.
\<close>

definition add_weights :: "(nat \<rightharpoonup> real) \<Rightarrow> (nat \<times> real) list \<Rightarrow> (nat \<rightharpoonup> real)" where
  "add_weights m xs k =
     (if k \<in> fst ` set xs
      then Some ((case m k of None \<Rightarrow> 0 | Some v \<Rightarrow> v) + (\<Sum>(t, x)\<leftarrow>xs. if t = k then x else 0))
      else m k)"

text \<open>
  The sweep of section 4.3 of the specification, computed from the snapshot alone. For
  each item of the snapshot in turn: the energy accumulation and the stochastic rounding
  (the two blocks of the source, which read no map), then the spawn attempts and the
  death step of that item, from the weight the snapshot holds for it and the weight
  \<open>w\<close> it leaves the rounding with. The result is the list of the surviving walkers with their weights
  after the death step, the list of all spawned (target, weight) pairs, the statistics
  and the draws that are left. No population map is read or written.
\<close>

fun sweep_spec ::
  "params \<Rightarrow> dense \<Rightarrow> (nat \<times> real) list \<Rightarrow> stats \<Rightarrow> real list \<Rightarrow> nat list
     \<Rightarrow> error + ((nat \<times> real) list \<times> (nat \<times> real) list \<times> stats \<times> real list \<times> nat list)" where
  "sweep_spec P Hd [] st fl rs = Inr ([], [], st, fl, rs)"
| "sweep_spec P Hd ((d, a) # items) st fl rs =
     bindE (accumulate_energy Hd d a st) (\<lambda>st1.
     bindE (stochastic_round P a fl) (\<lambda>(kept, fl').
       case kept of
         None \<Rightarrow> sweep_spec P Hd items st1 fl' rs
       | Some w \<Rightarrow>
           (let nspawn = nat \<lceil>\<bar>w\<bar>\<rceil>;
                accepted = filter (\<lambda>r. r \<noteq> d) rs
            in if length accepted < nspawn then Inl DrawsExhausted
               else
                 bindE (sweep_spec P Hd items
                          (st1\<lparr>nw := nw st1 + \<bar>w\<bar>, nocc_dets := nocc_dets st1 + 1\<rparr>)
                          fl' (skip_targets d nspawn rs))
                   (\<lambda>(ws, spawns, st', fl'', rs'').
                      Inr ((d, a - timestep P * (full_h Hd d d - full_h Hd 0 0 - shift P) * w) # ws,
                           map (\<lambda>t. (t, - timestep P * full_h Hd d t * w
                                           / (1 / real (ndet Hd - 1) * real nspawn)))
                             (take nspawn accepted) @ spawns,
                           st', fl'', rs'')))))"

section \<open>The determinant functions on a store of list objects\<close>

text \<open>
  Python lists are objects: a variable holds a reference, \<open>det.copy()\<close> and
  \<open>sorted(det)\<close> make a new object, and \<open>det[i] = v\<close> changes the object the variable
  refers to. The store holds the list objects, an address is a position in it, and a
  new object goes to the end.
\<close>

type_synonym store = "nat list list"

definition alloc :: "store \<Rightarrow> nat list \<Rightarrow> nat \<times> store" where
  "alloc s xs = (length s, s @ [xs])"

text \<open>
  Sequencing for a computation that returns a result or an error together with the
  store it leaves.
\<close>

definition bindH ::
  "(error + 'a) \<times> store \<Rightarrow> ('a \<Rightarrow> store \<Rightarrow> (error + 'b) \<times> store) \<Rightarrow> (error + 'b) \<times> store" where
  "bindH m f = (case m of (Inl e, s) \<Rightarrow> (Inl e, s) | (Inr x, s) \<Rightarrow> f x s)"

text \<open>\<open>xs[i] = v\<close> through the reference \<open>a\<close>.\<close>

definition store_set :: "store \<Rightarrow> nat \<Rightarrow> int \<Rightarrow> nat \<Rightarrow> (error + unit) \<times> store" where
  "store_set s a i v =
     (case py_set (s ! a) i v of Inl e \<Rightarrow> (Inl e, s) | Inr xs \<Rightarrow> (Inr (), s[a := xs]))"

function exchange_loop_h :: "store \<Rightarrow> nat \<Rightarrow> int \<Rightarrow> bool \<Rightarrow> nat \<Rightarrow> (error + nat) \<times> store" where
  "exchange_loop_h s det_copy ind up perm =
     (if s ! det_copy = sort (s ! det_copy) then (Inr perm, s)
      else
        (case py_get (s ! det_copy) (ind + step_of up) of
           Inl e \<Rightarrow> (Inl e, s)
         | Inr tmp \<Rightarrow>
            (case py_get (s ! det_copy) ind of
               Inl e \<Rightarrow> (Inl e, s)
             | Inr cur \<Rightarrow>
                (case store_set s det_copy (ind + step_of up) cur of
                   (Inl e, s1) \<Rightarrow> (Inl e, s1)
                 | (Inr u, s1) \<Rightarrow>
                    (case store_set s1 det_copy ind tmp of
                       (Inl e, s2) \<Rightarrow> (Inl e, s2)
                     | (Inr u', s2) \<Rightarrow> exchange_loop_h s2 det_copy (ind + step_of up) up (perm + 1))))))"
  by pat_completeness auto
termination
  apply (relation "measure (\<lambda>(s, c, ind, up, perm).
         if up then nat (int (length (s ! c)) - ind) else nat (ind + int (length (s ! c)) + 1))")
  subgoal by simp
  subgoal premises prems for s det_copy ind up perm tmp cur x s1 u x' s2 u'
  proof -
    have l1: "length (s1 ! det_copy) = length (s ! det_copy)"
      using prems(4) [symmetric] by (cases "det_copy < length s")
        (auto simp: store_set_def py_set_def list_update_beyond split: option.splits sum.splits)
    have l2: "length (s2 ! det_copy) = length (s1 ! det_copy)"
      using prems(6) [symmetric] by (cases "det_copy < length s1")
        (auto simp: store_set_def py_set_def list_update_beyond split: option.splits sum.splits)
    have r: "- int (length (s ! det_copy)) \<le> ind + step_of up
           \<and> ind + step_of up < int (length (s ! det_copy))"
      using prems(2) by (auto simp: py_get_def py_pos_def split: option.splits if_splits)
    show ?thesis using r l1 l2 by (auto simp: step_of_def)
  qed
  done

text \<open>
  \<open>elec_exchange_ops(det, ind)\<close> with \<open>det\<close> a reference: the copy is a new object, the
  direction is read from \<open>det\<close>, the loop writes to the copy.
\<close>

definition elec_exchange_ops_h :: "store \<Rightarrow> nat \<Rightarrow> int \<Rightarrow> (error + nat) \<times> store" where
  "elec_exchange_ops_h s det ind =
     (case alloc s (s ! det) of (det_copy, s1) \<Rightarrow>
        (case exchange_step (s1 ! det) ind of
           Inl e \<Rightarrow> (Inl e, s1)
         | Inr up \<Rightarrow> exchange_loop_h s1 det_copy ind up 0))"

text \<open>
  The relabelling loop of \<open>calc_excit_mat_parity\<close>: \<open>det_copy\<close> is written through its
  reference, handed to \<open>elec_exchange_ops\<close>, and then bound to the new object that
  \<open>sorted\<close> returns.
\<close>

fun relabel_loop_h :: "store \<Rightarrow> nat \<Rightarrow> (nat \<times> nat) list \<Rightarrow> nat \<Rightarrow> (error + nat) \<times> store" where
  "relabel_loop_h s det_copy [] perm = (Inr perm, s)"
| "relabel_loop_h s det_copy ((from_orb, to_orb) # rest) perm =
     bindH (py_index (s ! det_copy) from_orb, s) (\<lambda>ind s.
     bindH (store_set s det_copy (int ind) to_orb) (\<lambda>u s1.
     bindH (elec_exchange_ops_h s1 det_copy (int ind)) (\<lambda>k s2.
     (case alloc s2 (sort (s2 ! det_copy)) of (sorted_copy, s3) \<Rightarrow>
        relabel_loop_h s3 sorted_copy rest (perm + k)))))"

text \<open>
  \<open>calc_excit_mat_parity(det, excited_det)\<close> with both arguments references. The four
  lists it collects are objects of its own, which nothing else refers to: they are
  kept as values.
\<close>

definition calc_excit_mat_parity_h ::
  "store \<Rightarrow> nat \<Rightarrow> nat \<Rightarrow> (error + (nat list list option \<times> int option)) \<times> store" where
  "calc_excit_mat_parity_h s det excited_det =
     (let froms = filter (\<lambda>(from_ind, from_orb). from_orb \<notin> set (s ! excited_det)) (enumerate_list (s ! det));
          from_inds = map fst froms;
          from_orbs = map snd froms;
          tos = filter (\<lambda>(to_ind, to_orb). to_orb \<notin> set (s ! det)) (enumerate_list (s ! excited_det));
          to_inds = map fst tos;
          to_orbs = map snd tos
      in if length from_inds \<noteq> length to_inds then (Inl AssertionError, s)
         else
           (let excit_mat = [from_orbs, to_orbs]
            in case alloc s (s ! det) of (det_copy, s1) \<Rightarrow>
                 bindH (relabel_loop_h s1 det_copy (zip from_orbs to_orbs) 0) (\<lambda>perm s2.
                   (let parity = (- 1) ^ perm
                    in if excit_mat = [] then (Inr (None, None), s2)
                       else (Inr (Some excit_mat, Some parity), s2)))))"

text \<open>
  \<open>excit_gen(det)\<close> with \<open>det\<close> a reference; the result holds the reference of the
  excited determinant.
\<close>

definition excit_gen_h ::
  "HAM \<Rightarrow> store \<Rightarrow> nat \<Rightarrow> excit_draws \<Rightarrow> (error + (nat \<times> nat list list \<times> int \<times> pyfloat)) \<times> store" where
  "excit_gen_h H s det D =
     (case alloc s (s ! det) of (excited_det, s1) \<Rightarrow>
        (let single = (rnd_single D < p_single H)
         in if length (s1 ! excited_det) = 0 then (Inl ValueError, s1)
            else
              (let ind = int (rnd_ind D)
               in bindH (py_get (s1 ! excited_det) ind, s1) (\<lambda>orb_from s1.
                  if 2 * nbasis H \<le> 0 then (Inl ValueError, s1)
                  else
                    bindH (first_free (s1 ! det) (rnd_to D), s1) (\<lambda>orb_to s1.
                    bindH (store_set s1 excited_det ind orb_to) (\<lambda>u s2.
                    bindH (elec_exchange_ops_h s2 excited_det ind) (\<lambda>perm s3.
                    (case alloc s3 (sort (s3 ! excited_det)) of (excited_det2, s4) \<Rightarrow>
                       if single then
                         (if nelec H * (2 * nbasis H - nelec H) = 0 then (Inl ZeroDivisionError, s4)
                          else (Inr (excited_det2, [[orb_from], [orb_to]], (- 1) ^ perm,
                                  Finite (p_single H / real_of_int (nelec H * (2 * nbasis H - nelec H)))),
                                s4))
                       else
                         bindH (second_draw (s4 ! excited_det2) orb_from orb_to (rnd_second D), s4)
                           (\<lambda>(ind2, orb_from_2, orb_to_2) s4.
                         bindH (store_set s4 excited_det2 (int ind2) orb_to_2) (\<lambda>u s5.
                         bindH (elec_exchange_ops_h s5 excited_det2 (int ind2)) (\<lambda>perm2 s6.
                         (let denom = comb2 (2 * nbasis H - nelec H) * comb2 (nelec H);
                              prob = (if denom = 0 then NonFinite else Finite ((1 - p_single H) / denom))
                          in case alloc s6 (sort (s6 ! excited_det2)) of (excited_det3, s7) \<Rightarrow>
                               (Inr (excited_det3, [[orb_from, orb_from_2], [orb_to, orb_to_2]],
                                     (- 1) ^ (perm + perm2), prob), s7)))))))))))))"

declare exchange_loop_h.simps [simp del]

text \<open>Every object of the store \<open>s\<close> is in \<open>s'\<close>, at its address and with its content.\<close>

definition store_kept :: "store \<Rightarrow> store \<Rightarrow> bool" where
  "store_kept s s' = (take (length s) s' = s)"

text \<open>The store that \<open>elec_exchange_ops\<close> leaves.\<close>

definition exchange_store :: "store \<Rightarrow> nat \<Rightarrow> int \<Rightarrow> store" where
  "exchange_store s det ind = snd (elec_exchange_ops_h s det ind)"

section \<open>Properties of slater_condon\<close>

lemma bindE_Inr [simp]: "bindE (Inr x) f = f x"
  by (simp add: bindE_def)

lemma bindE_Inl [simp]: "bindE (Inl e) f = Inl e"
  by (simp add: bindE_def)

lemma py_get_0_Cons [simp]: "py_get (x # xs) 0 = Inr x"
  by (simp add: py_get_def py_pos_def)

lemma py_get_1_Cons2 [simp]: "py_get (x # y # xs) 1 = Inr y"
  by (simp add: py_get_def py_pos_def)

text \<open>
  C9: a descriptor that is not \<open>None\<close> and whose first tuple has length 0 (such as
  \<open>[(), ()]\<close>) or length above 2 yields 0 times the parity, that is 0, whatever the
  determinant and the tensors are; the diagonal element is not computed.
\<close>

theorem slater_condon_fallthrough:
  "length froms = 0 \<or> 2 < length froms \<Longrightarrow>
   slater_condon H det excited_det (Some (froms # rest)) parity = Inr (apply_parity parity 0)
   \<and> apply_parity parity 0 = 0"
  by (auto simp: slater_condon_def apply_parity_def split: option.splits)

theorem slater_condon_fallthrough_witness:
  "slater_condon \<lparr>nelec = 2, nbasis = 2, h1 = (\<lambda>p q. 1), h2 = (\<lambda>p q r s. 1), nn = 5, p_single = 1/2\<rparr>
     [0, 2] [0, 2] (Some [[], []]) (Some 1) = Inr 0
   \<and> diag_outer \<lparr>nelec = 2, nbasis = 2, h1 = (\<lambda>p q. 1), h2 = (\<lambda>p q r s. 1), nn = 5, p_single = 1/2\<rparr>
     [0, 2] 5 = Inr 7"
  using slater_condon_fallthrough [of "[]" _ "[0, 2]" "[0, 2]" "[[]]" "Some 1"]
  by (simp add: apply_parity_def h1_at_def h2_at_def spin_basis_def)

lemma diag_inner_ok:
  "int p < spin_basis H \<Longrightarrow> \<forall>q\<in>set qs. int q < spin_basis H \<Longrightarrow>
   diag_inner H p qs hel = Inr (hel + (\<Sum>q\<leftarrow>qs. h2 H p p q q - h2 H p q q p))"
  by (induction qs arbitrary: hel) (simp_all add: h2_at_def)

lemma diag_outer_ok:
  "\<forall>q\<in>set ps. int q < spin_basis H \<Longrightarrow>
   diag_outer H ps hel =
     Inr (hel + (\<Sum>p\<leftarrow>ps. h1 H p p) + (\<Sum>i\<leftarrow>[0..<length ps]. \<Sum>q\<leftarrow>drop (Suc i) ps. h2 H (ps ! i) (ps ! i) q q - h2 H (ps ! i) q q (ps ! i)))"
proof (induction ps arbitrary: hel)
  case Nil
  then show ?case by simp
next
  case (Cons p ps)
  have "[0..<length (p # ps)] = 0 # map Suc [0..<length ps]"
    by (simp add: upt_conv_Cons map_Suc_upt del: upt_Suc)
  then show ?case using Cons
    by (simp add: h1_at_def diag_inner_ok o_def del: upt_Suc)
qed

lemma single_loop_ok:
  "int i < spin_basis H \<Longrightarrow> int a < spin_basis H \<Longrightarrow> \<forall>q\<in>set qs. int q < spin_basis H \<Longrightarrow>
   single_loop H i a qs hel = Inr (hel + (\<Sum>q\<leftarrow>qs. h2 H i a q q - h2 H i q q a))"
  by (induction qs arbitrary: hel) (simp_all add: h2_at_def)

lemma pair_sum_sorted:
  fixes f :: "nat \<Rightarrow> nat \<Rightarrow> real"
  shows "sorted ps \<Longrightarrow> distinct ps \<Longrightarrow>
   (\<Sum>i\<leftarrow>[0..<length ps]. \<Sum>q\<leftarrow>drop (Suc i) ps. f (ps ! i) q) =
   (\<Sum>p\<in>set ps. \<Sum>q\<in>{q \<in> set ps. p < q}. f p q)"
proof (induction ps)
  case Nil
  then show ?case by simp
next
  case (Cons p ps)
  have up: "[0..<length (p # ps)] = 0 # map Suc [0..<length ps]"
    by (simp add: upt_conv_Cons map_Suc_upt del: upt_Suc)
  have gt: "\<forall>q\<in>set ps. p < q" using Cons.prems by (auto simp: le_less)
  have A: "{q \<in> set (p # ps). p < q} = set ps" using gt by auto
  have B: "\<And>p'. p' \<in> set ps \<Longrightarrow> {q \<in> set (p # ps). p' < q} = {q \<in> set ps. p' < q}"
    using gt by auto
  have S1: "(\<Sum>p'\<in>set (p # ps). \<Sum>q\<in>{q \<in> set (p # ps). p' < q}. f p' q)
      = (\<Sum>q\<in>set ps. f p q) + (\<Sum>p'\<in>set ps. \<Sum>q\<in>{q \<in> set ps. p' < q}. f p' q)"
  proof -
    have "(\<Sum>p'\<in>set (p # ps). \<Sum>q\<in>{q \<in> set (p # ps). p' < q}. f p' q)
        = (\<Sum>q\<in>{q \<in> set (p # ps). p < q}. f p q)
          + (\<Sum>p'\<in>set ps. \<Sum>q\<in>{q \<in> set (p # ps). p' < q}. f p' q)"
      using Cons.prems by (simp del: Set.filter_eq)
    also have "(\<Sum>p'\<in>set ps. \<Sum>q\<in>{q \<in> set (p # ps). p' < q}. f p' q)
        = (\<Sum>p'\<in>set ps. \<Sum>q\<in>{q \<in> set ps. p' < q}. f p' q)"
      by (rule sum.cong) (simp_all only: B)
    finally show ?thesis by (simp only: A)
  qed
  have S2: "(\<Sum>q\<in>set ps. f p q) = (\<Sum>q\<leftarrow>ps. f p q)"
    using Cons.prems by (simp add: sum_list_distinct_conv_sum_set)
  have L: "(\<Sum>i\<leftarrow>[0..<length (p # ps)]. \<Sum>q\<leftarrow>drop (Suc i) (p # ps). f ((p # ps) ! i) q)
      = (\<Sum>q\<leftarrow>ps. f p q) + (\<Sum>i\<leftarrow>[0..<length ps]. \<Sum>q\<leftarrow>drop (Suc i) ps. f (ps ! i) q)"
    unfolding up by (simp add: o_def)
  have IH: "(\<Sum>i\<leftarrow>[0..<length ps]. \<Sum>q\<leftarrow>drop (Suc i) ps. f (ps ! i) q) =
     (\<Sum>p\<in>set ps. \<Sum>q\<in>{q \<in> set ps. p < q}. f p q)"
    using Cons by simp
  show ?case unfolding L S1 S2 IH ..
qed

text \<open>
  C2: the Slater-Condon rules as \<open>slater_condon\<close> computes them, for a sorted
  duplicate-free determinant whose orbitals lie inside the tensors: the diagonal
  element for the descriptor \<open>None\<close> (the sum over pairs runs over the occupied
  \<open>p < q\<close>), the single and the double element for descriptors of rank 1 and 2, zero
  for a rank above 2, each multiplied by the parity when one is supplied.
\<close>

theorem slater_condon_rules:
  assumes "sorted det" and "distinct det" and "\<forall>p\<in>set det. int p < spin_basis H"
  shows "slater_condon H det excited_det None parity =
           Inr (apply_parity parity
             (nn H + (\<Sum>p\<in>set det. h1 H p p)
                   + (\<Sum>p\<in>set det. \<Sum>q\<in>{q \<in> set det. p < q}. h2 H p p q q - h2 H p q q p)))
       \<and> (int i < spin_basis H \<and> int a < spin_basis H \<longrightarrow>
           slater_condon H det excited_det (Some [[i], [a]]) parity =
             Inr (apply_parity parity
               (h1 H i a + (\<Sum>q\<in>set det. h2 H i a q q - h2 H i q q a))))
       \<and> (int i < spin_basis H \<and> int a < spin_basis H \<and> int j < spin_basis H \<and> int b < spin_basis H \<longrightarrow>
           slater_condon H det excited_det (Some [[i, j], [a, b]]) parity =
             Inr (apply_parity parity (h2 H i a j b - h2 H i b j a)))
       \<and> (2 < length froms \<longrightarrow>
           slater_condon H det excited_det (Some (froms # rest)) parity = Inr (apply_parity parity 0))
       \<and> apply_parity None x = x
       \<and> apply_parity (Some s) x = x * real_of_int s"
proof -
  have D: "slater_condon H det excited_det None parity =
           Inr (apply_parity parity
             (nn H + (\<Sum>p\<in>set det. h1 H p p)
                   + (\<Sum>p\<in>set det. \<Sum>q\<in>{q \<in> set det. p < q}. h2 H p p q q - h2 H p q q p)))"
  proof -
    have "(\<Sum>p\<leftarrow>det. h1 H p p) = (\<Sum>p\<in>set det. h1 H p p)"
      using assms(2) by (simp add: sum_list_distinct_conv_sum_set)
    moreover have "(\<Sum>i\<leftarrow>[0..<length det]. \<Sum>q\<leftarrow>drop (Suc i) det.
          h2 H (det ! i) (det ! i) q q - h2 H (det ! i) q q (det ! i))
        = (\<Sum>p\<in>set det. \<Sum>q\<in>{q \<in> set det. p < q}. h2 H p p q q - h2 H p q q p)"
      using pair_sum_sorted [OF assms(1,2), of "\<lambda>p q. h2 H p p q q - h2 H p q q p"] .
    ultimately show ?thesis
      using diag_outer_ok [OF assms(3), of "nn H"] by (simp add: slater_condon_def)
  qed
  have S: "int i < spin_basis H \<and> int a < spin_basis H \<longrightarrow>
           slater_condon H det excited_det (Some [[i], [a]]) parity =
             Inr (apply_parity parity
               (h1 H i a + (\<Sum>q\<in>set det. h2 H i a q q - h2 H i q q a)))"
  proof
    assume r: "int i < spin_basis H \<and> int a < spin_basis H"
    have "(\<Sum>q\<leftarrow>det. h2 H i a q q - h2 H i q q a) = (\<Sum>q\<in>set det. h2 H i a q q - h2 H i q q a)"
      using assms(2) by (simp add: sum_list_distinct_conv_sum_set)
    then show "slater_condon H det excited_det (Some [[i], [a]]) parity =
             Inr (apply_parity parity
               (h1 H i a + (\<Sum>q\<in>set det. h2 H i a q q - h2 H i q q a)))"
      using r single_loop_ok [OF _ _ assms(3), of i a "h1 H i a"]
      by (simp add: slater_condon_def em_at_def h1_at_def)
  qed
  have Dbl: "int i < spin_basis H \<and> int a < spin_basis H \<and> int j < spin_basis H \<and> int b < spin_basis H \<longrightarrow>
           slater_condon H det excited_det (Some [[i, j], [a, b]]) parity =
             Inr (apply_parity parity (h2 H i a j b - h2 H i b j a))"
    by (simp add: slater_condon_def em_at_def h2_at_def)
  have Z: "2 < length froms \<longrightarrow>
           slater_condon H det excited_det (Some (froms # rest)) parity = Inr (apply_parity parity 0)"
    by (simp add: slater_condon_def)
  show ?thesis using D S Dbl Z by (simp add: apply_parity_def)
qed

theorem slater_condon_rules_witness:
  "sorted [0, 2 :: nat] \<and> distinct [0, 2 :: nat]
   \<and> slater_condon ham_example [0, 2] [0, 2] None (Some (- 1)) = Inr (- 13)
   \<and> slater_condon ham_example [0, 2] [0, 2] (Some [[0], [1]]) (Some (- 1)) = Inr (- 1)
   \<and> slater_condon ham_example [0, 2] [0, 2] (Some [[0, 2], [1, 3]]) (Some (- 1)) = Inr (- 4)
   \<and> slater_condon ham_example [0, 2] [0, 2] (Some [[0, 2, 1], [1, 3, 0]]) (Some (- 1)) = Inr 0"
proof -
  have h: "\<forall>p\<in>set [0, 2 :: nat]. int p < spin_basis ham_example"
    by (simp add: ham_example_def spin_basis_def)
  have f: "{q. (q = 0 \<or> q = 2) \<and> (0::nat) < q} = {2}" "{q. (q = 0 \<or> q = 2) \<and> (2::nat) < q} = {}"
    by auto
  show ?thesis
    using slater_condon_rules [of "[0, 2]" ham_example "[0, 2]" "Some (- 1)" 0 1 2 3 "[0, 2, 1]" "[[1, 3, 0]]" 0 1, OF _ _ h]
    by (simp add: ham_example_def spin_basis_def apply_parity_def f)
qed

section \<open>Properties of calc_excit_mat_parity\<close>

lemma enumerate_filter_absent:
  "filter (\<lambda>(i, x). x \<notin> set xs) (enumerate_list xs) = []"
  by (auto simp: enumerate_list_def filter_empty_conv dest: set_zip_rightD)

text \<open>
  C4: for identical determinants the source builds the descriptor \<open>[(), ()]\<close>, a list
  of two empty tuples. The test \<open>not list(excit_mat)\<close> asks whether that list of two
  tuples is empty, which it never is, so the descriptor \<open>None\<close> is never returned: the
  result is \<open>([(), ()], 1)\<close>.
\<close>

theorem calc_excit_mat_parity_identical:
  "calc_excit_mat_parity det det = Inr (Some [[], []], Some 1)"
  by (simp add: calc_excit_mat_parity_def enumerate_filter_absent)

section \<open>Properties of elec_exchange_ops\<close>

declare exchange_loop.simps [simp del]

lemma py_get_append_here [simp]: "py_get (a @ x # b) (int (length a)) = Inr x"
  by (simp add: py_get_def py_pos_def)

lemma py_get_append_next [simp]: "py_get (a @ x # y # b) (int (length a) + 1) = Inr y"
proof -
  have "py_get ((a @ [x]) @ y # b) (int (length (a @ [x]))) = Inr y"
    by (rule py_get_append_here)
  then show ?thesis by (simp add: add.commute)
qed

lemma py_set_append_here [simp]: "py_set (a @ x # b) (int (length a)) v = Inr (a @ v # b)"
  by (simp add: py_set_def py_pos_def)

lemma py_set_append_next [simp]:
  "py_set (a @ x # y # b) (int (length a) + 1) v = Inr (a @ x # v # b)"
proof -
  have "py_set ((a @ [x]) @ y # b) (int (length (a @ [x]))) v = Inr ((a @ [x]) @ v # b)"
    by (rule py_set_append_here)
  then show ?thesis by (simp add: add.commute)
qed

lemma exchange_loop_sorted: "sorted dc \<Longrightarrow> exchange_loop dc ind up perm = Inr perm"
  by (subst exchange_loop.simps) (simp add: sorted_sort_id)

lemma unsorted_neq_sort: "\<not> sorted dc \<Longrightarrow> dc \<noteq> sort dc"
  by (metis sorted_sort)

lemma exchange_loop_up:
  "sorted (a @ b) \<Longrightarrow> \<forall>x\<in>set a. x < v \<Longrightarrow> v \<notin> set b \<Longrightarrow>
   \<exists>k. exchange_loop (a @ v # b) (int (length a)) True perm = Inr k"
proof (induction b arbitrary: a perm)
  case Nil
  then have "sorted (a @ [v])" by (auto simp: sorted_append less_imp_le)
  then show ?case by (simp add: exchange_loop_sorted)
next
  case (Cons y b)
  show ?case
  proof (cases "v < y")
    case True
    then have "sorted (a @ v # y # b)"
      using Cons.prems by (auto simp: sorted_append less_imp_le)
    then show ?thesis by (simp add: exchange_loop_sorted)
  next
    case False
    then have yv: "y < v" using Cons.prems(3) by auto
    then have ns: "\<not> sorted (a @ v # y # b)" by (auto simp: sorted_append)
    have s: "sorted ((a @ [y]) @ b)" using Cons.prems(1) by simp
    have l: "\<forall>x\<in>set (a @ [y]). x < v" using Cons.prems(2) yv by auto
    have n: "v \<notin> set b" using Cons.prems(3) by simp
    obtain k where k: "exchange_loop ((a @ [y]) @ v # b) (int (length (a @ [y]))) True (perm + 1) = Inr k"
      using Cons.IH [OF s l n] by blast
    have "exchange_loop (a @ v # y # b) (int (length a)) True perm =
          exchange_loop (a @ y # v # b) (int (length a) + 1) True (perm + 1)"
      by (subst exchange_loop.simps) (simp add: unsorted_neq_sort [OF ns] step_of_def)
    then show ?thesis using k by (simp add: add.commute)
  qed
qed

lemma exchange_loop_down:
  "sorted (a @ b) \<Longrightarrow> \<forall>x\<in>set b. v < x \<Longrightarrow> v \<notin> set a \<Longrightarrow>
   \<exists>k. exchange_loop (a @ v # b) (int (length a)) False perm = Inr k"
proof (induction a arbitrary: b perm rule: rev_induct)
  case Nil
  then have "sorted (v # b)" by (auto simp: less_imp_le)
  then show ?case using exchange_loop_sorted [of "v # b" 0 False perm] by auto
next
  case (snoc y a)
  show ?case
  proof (cases "y < v")
    case True
    then have "sorted ((a @ [y]) @ v # b)"
      using snoc.prems by (auto simp: sorted_append less_imp_le)
    then show ?thesis by (simp only: exchange_loop_sorted) blast
  next
    case False
    then have vy: "v < y" using snoc.prems(3) by auto
    then have ns: "\<not> sorted (a @ y # v # b)" by (auto simp: sorted_append)
    have s: "sorted (a @ y # b)" using snoc.prems(1) by simp
    have l: "\<forall>x\<in>set (y # b). v < x" using snoc.prems(2) vy by auto
    have n: "v \<notin> set a" using snoc.prems(3) by simp
    obtain k where k: "exchange_loop (a @ v # y # b) (int (length a)) False (perm + 1) = Inr k"
      using snoc.IH [OF s l n] by blast
    have "exchange_loop (a @ y # v # b) (int (length a) + 1) False perm =
          exchange_loop (a @ v # y # b) (int (length a)) False (perm + 1)"
      by (subst exchange_loop.simps) (simp add: unsorted_neq_sort [OF ns] step_of_def)
    then show ?thesis using k by (simp add: add.commute)
  qed
qed

lemma elec_exchange_ops_returns:
  assumes "sorted xs" and "distinct xs" and "i < length xs" and "v \<notin> set xs"
  shows "\<exists>k. elec_exchange_ops (xs[i := v]) (int i) = Inr k"
proof -
  define a where "a = take i xs"
  define b where "b = drop (Suc i) xs"
  have xs: "xs = a @ xs ! i # b" and la: "length a = i"
    using assms(3) by (simp_all add: a_def b_def id_take_nth_drop [symmetric])
  have upd: "xs[i := v] = a @ v # b"
    using assms(3) by (simp add: a_def b_def upd_conv_take_nth_drop)
  have sab: "sorted (a @ b)"
    using assms(1) by (subst (asm) xs) (auto simp: sorted_append)
  have va: "v \<notin> set a" and vb: "v \<notin> set b"
    using assms(4) by (subst (asm) xs, simp)+
  show ?thesis
  proof (cases "i = 0")
    case True
    then have a: "a = []" using la by simp
    have u0: "xs[0 := v] = v # b" using upd True a by simp
    have "\<exists>k. exchange_loop (v # b) 0 True 0 = Inr k"
      using exchange_loop_up [of "[]" b v 0] sab vb a by simp
    then show ?thesis
      using True by (simp add: elec_exchange_ops_def exchange_step_def u0)
  next
    case i0: False
    then have a0: "a \<noteq> []" using la by auto
    show ?thesis
    proof (cases b)
      case Nil
      have st: "exchange_step (a @ [v]) (int (length a)) = Inr False"
        using a0 by (simp add: exchange_step_def)
      have "\<exists>k. exchange_loop (a @ [v]) (int (length a)) False 0 = Inr k"
        using exchange_loop_down [of a "[]" v 0] sab va Nil by simp
      then have "\<exists>k. elec_exchange_ops (a @ [v]) (int (length a)) = Inr k"
        by (simp add: elec_exchange_ops_def st)
      then show ?thesis unfolding upd Nil la .
    next
      case (Cons y b')
      have st: "exchange_step (a @ v # y # b') (int (length a)) = Inr (y < v)"
        using a0 by (simp add: exchange_step_def)
      have sxs: "sorted (a @ xs ! i # y # b')" using assms(1) xs Cons by simp
      have "\<exists>k. exchange_loop (a @ v # y # b') (int (length a)) (y < v) 0 = Inr k"
      proof (cases "y < v")
        case True
        have "\<forall>x\<in>set a. x \<le> y" using sxs by (auto simp: sorted_append)
        then have "\<forall>x\<in>set a. x < v" using True by auto
        then show ?thesis
          using exchange_loop_up [of a b v 0] sab vb True Cons by simp
      next
        case False
        then have "v < y" using vb Cons by auto
        moreover have "\<forall>x\<in>set b'. y \<le> x" using sxs by (auto simp: sorted_append)
        ultimately have "\<forall>x\<in>set b. v < x" using Cons by auto
        then show ?thesis
          using exchange_loop_down [of a b v 0] sab va False Cons by simp
      qed
      then have "\<exists>k. elec_exchange_ops (a @ v # y # b') (int (length a)) = Inr k"
        by (simp add: elec_exchange_ops_def st)
      then show ?thesis unfolding upd Cons la .
    qed
  qed
qed

section \<open>Properties of excit_gen\<close>

lemma bindE_eq_Inr: "bindE m f = Inr y \<longleftrightarrow> (\<exists>x. m = Inr x \<and> f x = Inr y)"
  by (cases m) simp_all

lemma py_get_nat_Inr: "py_get xs (int i) = Inr x \<longleftrightarrow> i < length xs \<and> x = xs ! i"
  by (auto simp: py_get_def py_pos_def)

lemma py_set_nat_Inr: "py_set xs (int i) v = Inr ys \<longleftrightarrow> i < length xs \<and> ys = xs[i := v]"
  by (auto simp: py_set_def py_pos_def)

lemma first_free_Inr: "first_free det rs = Inr r \<Longrightarrow> r \<notin> set det \<and> r \<in> set rs"
  by (induction rs) (auto split: if_splits)

lemma first_free_Inl: "first_free det rs = Inl e \<Longrightarrow> e = DrawsExhausted"
  by (induction rs) (auto split: if_splits)

lemma second_draw_Inr:
  "second_draw ed f t ps = Inr (i, f2, t2) \<Longrightarrow>
   i < length ed \<and> f2 = ed ! i \<and> t2 \<notin> set ed \<and> t2 \<noteq> f \<and> f2 \<noteq> t \<and> (i, t2) \<in> set ps"
proof (induction ps)
  case Nil
  then show ?case by simp
next
  case (Cons p ps)
  obtain j u where p: "p = (j, u)" by (cases p)
  show ?case using Cons unfolding p
    by (auto simp: bindE_eq_Inr py_get_nat_Inr split: if_splits)
qed

lemma second_draw_Inl:
  "\<forall>(i, u)\<in>set ps. i < length ed \<Longrightarrow> second_draw ed f t ps = Inl e \<Longrightarrow> e = DrawsExhausted"
proof (induction ps)
  case Nil
  then show ?case by simp
next
  case (Cons p ps)
  obtain j u where p: "p = (j, u)" by (cases p)
  have "py_get ed (int j) = Inr (ed ! j)" using Cons.prems(1) p by (simp add: py_get_nat_Inr)
  then show ?case using Cons unfolding p by (auto split: if_splits)
qed

lemma distinct_update_fresh: "distinct xs \<Longrightarrow> v \<notin> set xs \<Longrightarrow> distinct (xs[i := v])"
  by (simp add: distinct_list_update)

lemma excit_gen_cases:
  assumes "excit_gen H det D = Inr (ed, em, par, pr)"
  shows "\<exists>orb_to perm. rnd_ind D < length det \<and> first_free det (rnd_to D) = Inr orb_to
      \<and> elec_exchange_ops (det[rnd_ind D := orb_to]) (int (rnd_ind D)) = Inr perm
      \<and> ((rnd_single D < p_single H \<and> ed = sort (det[rnd_ind D := orb_to])
           \<and> em = [[det ! rnd_ind D], [orb_to]] \<and> par = (- 1) ^ perm
           \<and> nelec H * (2 * nbasis H - nelec H) \<noteq> 0
           \<and> pr = Finite (p_single H / real_of_int (nelec H * (2 * nbasis H - nelec H))))
        \<or> (\<not> rnd_single D < p_single H \<and>
            (\<exists>ind2 orb_from_2 orb_to_2 perm2.
               second_draw (sort (det[rnd_ind D := orb_to])) (det ! rnd_ind D) orb_to (rnd_second D)
                 = Inr (ind2, orb_from_2, orb_to_2)
             \<and> elec_exchange_ops ((sort (det[rnd_ind D := orb_to]))[ind2 := orb_to_2]) (int ind2) = Inr perm2
             \<and> ed = sort ((sort (det[rnd_ind D := orb_to]))[ind2 := orb_to_2])
             \<and> em = [[det ! rnd_ind D, orb_from_2], [orb_to, orb_to_2]]
             \<and> par = (- 1) ^ (perm + perm2)
             \<and> pr = (if comb2 (2 * nbasis H - nelec H) * comb2 (nelec H) = 0 then NonFinite
                     else Finite ((1 - p_single H) / (comb2 (2 * nbasis H - nelec H) * comb2 (nelec H)))))))"
  using assms
  by (auto simp: excit_gen_def Let_def bindE_eq_Inr py_get_nat_Inr py_set_nat_Inr
      split: if_splits prod.splits)

lemma first_free_returns: "\<exists>r\<in>set rs. r \<notin> set det \<Longrightarrow> \<exists>r. first_free det rs = Inr r"
  by (induction rs) auto

lemma second_draw_returns:
  "\<forall>(i, u)\<in>set ps. i < length ed \<Longrightarrow>
   \<exists>(i, u)\<in>set ps. u \<notin> set ed \<and> u \<noteq> f \<and> ed ! i \<noteq> t \<Longrightarrow>
   \<exists>x. second_draw ed f t ps = Inr x"
proof (induction ps)
  case Nil
  then show ?case by simp
next
  case (Cons p ps)
  obtain j u where p: "p = (j, u)" by (cases p)
  have g: "py_get ed (int j) = Inr (ed ! j)" using Cons.prems(1) p by (simp add: py_get_nat_Inr)
  show ?case
  proof (cases "u \<in> set ed \<or> u = f \<or> ed ! j = t")
    case True
    then have "\<exists>(i, u)\<in>set ps. u \<notin> set ed \<and> u \<noteq> f \<and> ed ! i \<noteq> t"
      using Cons.prems(2) p by auto
    then show ?thesis using Cons.IH Cons.prems(1) True g p by auto
  next
    case False
    then show ?thesis using g p by auto
  qed
qed

lemma free_orbital_room:
  assumes "distinct det" and "\<forall>p\<in>set det. int p < 2 * nb" and "r \<notin> set det" and "int r < 2 * nb"
  shows "int (length det) < 2 * nb"
proof -
  have "insert r (set det) \<subseteq> {..<nat (2 * nb)}" using assms(2,4) by auto
  then have "card (insert r (set det)) \<le> card {..<nat (2 * nb)}"
    by (intro card_mono) simp_all
  then have "Suc (length det) \<le> nat (2 * nb)"
    using assms(1,3) by (simp add: distinct_card)
  then show ?thesis by linarith
qed

lemma excit_gen_total:
  assumes "sorted det" and "distinct det" and "rnd_ind D < length det" and "0 < nbasis H"
    and "nelec H = int (length det)" and "\<forall>p\<in>set det. int p < 2 * nbasis H"
    and "\<forall>r\<in>set (rnd_to D). int r < 2 * nbasis H"
    and "\<forall>(i, u)\<in>set (rnd_second D). i < length det"
  shows "(\<exists>res. excit_gen H det D = Inr res) \<or> excit_gen H det D = Inl DrawsExhausted"
    and "(\<exists>r\<in>set (rnd_to D). r \<notin> set det) \<Longrightarrow>
         rnd_single D < p_single H \<or>
           (\<forall>orb_to. first_free det (rnd_to D) = Inr orb_to \<longrightarrow>
              (\<exists>(i, u)\<in>set (rnd_second D). u \<notin> set det \<and> u \<noteq> orb_to
                  \<and> sort (det[rnd_ind D := orb_to]) ! i \<noteq> orb_to)) \<Longrightarrow>
         \<exists>res. excit_gen H det D = Inr res"
proof -
  let ?i = "rnd_ind D"
  have g: "py_get det (int ?i) = Inr (det ! ?i)" using assms(3) by (simp add: py_get_nat_Inr)
  have ne: "length det \<noteq> 0" "\<not> 2 * nbasis H \<le> 0" using assms(3,4) by auto
  have start: "excit_gen H det D =
      bindE (first_free det (rnd_to D)) (\<lambda>orb_to.
        bindE (py_set det (int ?i) orb_to) (\<lambda>ed1.
        bindE (elec_exchange_ops ed1 (int ?i)) (\<lambda>perm.
        (let ed2 = sort ed1
         in if rnd_single D < p_single H then
              (if nelec H * (2 * nbasis H - nelec H) = 0 then Inl ZeroDivisionError
               else Inr (ed2, [[det ! ?i], [orb_to]], (- 1) ^ perm,
                      Finite (p_single H / real_of_int (nelec H * (2 * nbasis H - nelec H)))))
            else
              bindE (second_draw ed2 (det ! ?i) orb_to (rnd_second D)) (\<lambda>(ind2, orb_from_2, orb_to_2).
              bindE (py_set ed2 (int ind2) orb_to_2) (\<lambda>ed3.
              bindE (elec_exchange_ops ed3 (int ind2)) (\<lambda>perm2.
              (let denom = comb2 (2 * nbasis H - nelec H) * comb2 (nelec H);
                   prob = (if denom = 0 then NonFinite else Finite ((1 - p_single H) / denom))
               in Inr (sort ed3, [[det ! ?i, orb_from_2], [orb_to, orb_to_2]],
                       (- 1) ^ (perm + perm2), prob)))))))))"
    using g ne by (simp add: excit_gen_def Let_def)
  have main: "(\<exists>res. excit_gen H det D = Inr res) \<or> excit_gen H det D = Inl DrawsExhausted"
    and ret: "\<And>orb_to. first_free det (rnd_to D) = Inr orb_to \<Longrightarrow>
        rnd_single D < p_single H \<or>
          (\<exists>x. second_draw (sort (det[?i := orb_to])) (det ! ?i) orb_to (rnd_second D) = Inr x) \<Longrightarrow>
        \<exists>res. excit_gen H det D = Inr res"
  proof -
    show "(\<exists>res. excit_gen H det D = Inr res) \<or> excit_gen H det D = Inl DrawsExhausted"
    proof (cases "first_free det (rnd_to D)")
      case (Inl e)
      then show ?thesis using first_free_Inl [OF Inl] by (simp add: start)
    next
      case (Inr orb_to)
      have fr: "orb_to \<notin> set det" "orb_to \<in> set (rnd_to D)" using first_free_Inr [OF Inr] by auto
      have s1: "py_set det (int ?i) orb_to = Inr (det[?i := orb_to])"
        using assms(3) by (simp add: py_set_nat_Inr)
      obtain perm where perm: "elec_exchange_ops (det[?i := orb_to]) (int ?i) = Inr perm"
        using elec_exchange_ops_returns [OF assms(1,2,3) fr(1)] by blast
      let ?ed2 = "sort (det[?i := orb_to])"
      have d2: "distinct ?ed2" "sorted ?ed2" "length ?ed2 = length det"
        using assms(2) fr(1) by (simp_all add: distinct_update_fresh)
      have room: "int (length det) < 2 * nbasis H"
        using free_orbital_room [OF assms(2,6) fr(1)] assms(7) fr(2) by blast
      have nz: "nelec H * (2 * nbasis H - nelec H) \<noteq> 0"
        using room assms(3,5) by auto
      show ?thesis
      proof (cases "rnd_single D < p_single H")
        case True
        then show ?thesis using Inr s1 perm nz by (simp add: start)
      next
        case False
        show ?thesis
        proof (cases "second_draw ?ed2 (det ! ?i) orb_to (rnd_second D)")
          case (Inl e)
          have "\<forall>(i, u)\<in>set (rnd_second D). i < length ?ed2" using assms(8) d2(3) by simp
          from second_draw_Inl [OF this Inl]
          show ?thesis using Inr s1 perm False Inl by (simp add: start)
        next
          case sd: (Inr x)
          obtain i2 f2 t2 where x: "x = (i2, f2, t2)" by (cases x)
          have p2: "i2 < length ?ed2" "t2 \<notin> set ?ed2"
            using second_draw_Inr [OF sd [unfolded x]] by auto
          have s2: "py_set ?ed2 (int i2) t2 = Inr (?ed2[i2 := t2])"
            using p2(1) by (simp add: py_set_nat_Inr)
          obtain perm2 where perm2: "elec_exchange_ops (?ed2[i2 := t2]) (int i2) = Inr perm2"
            using elec_exchange_ops_returns [OF d2(2) d2(1) p2] by blast
          show ?thesis using Inr s1 perm False sd x s2 perm2 by (simp add: start Let_def)
        qed
      qed
    qed
  next
    fix orb_to
    assume Inr: "first_free det (rnd_to D) = Inr orb_to"
      and c: "rnd_single D < p_single H \<or>
          (\<exists>x. second_draw (sort (det[?i := orb_to])) (det ! ?i) orb_to (rnd_second D) = Inr x)"
    have fr: "orb_to \<notin> set det" "orb_to \<in> set (rnd_to D)" using first_free_Inr [OF Inr] by auto
    have s1: "py_set det (int ?i) orb_to = Inr (det[?i := orb_to])"
      using assms(3) by (simp add: py_set_nat_Inr)
    obtain perm where perm: "elec_exchange_ops (det[?i := orb_to]) (int ?i) = Inr perm"
      using elec_exchange_ops_returns [OF assms(1,2,3) fr(1)] by blast
    let ?ed2 = "sort (det[?i := orb_to])"
    have d2: "distinct ?ed2" "sorted ?ed2" "length ?ed2 = length det"
      using assms(2) fr(1) by (simp_all add: distinct_update_fresh)
    have room: "int (length det) < 2 * nbasis H"
      using free_orbital_room [OF assms(2,6) fr(1)] assms(7) fr(2) by blast
    have nz: "nelec H * (2 * nbasis H - nelec H) \<noteq> 0"
      using room assms(3,5) by auto
    show "\<exists>res. excit_gen H det D = Inr res"
    proof (cases "rnd_single D < p_single H")
      case True
      then show ?thesis using Inr s1 perm nz by (simp add: start)
    next
      case False
      then obtain x where sd: "second_draw ?ed2 (det ! ?i) orb_to (rnd_second D) = Inr x"
        using c by blast
      obtain i2 f2 t2 where x: "x = (i2, f2, t2)" by (cases x)
      have p2: "i2 < length ?ed2" "t2 \<notin> set ?ed2"
        using second_draw_Inr [OF sd [unfolded x]] by auto
      have s2: "py_set ?ed2 (int i2) t2 = Inr (?ed2[i2 := t2])"
        using p2(1) by (simp add: py_set_nat_Inr)
      obtain perm2 where perm2: "elec_exchange_ops (?ed2[i2 := t2]) (int i2) = Inr perm2"
        using elec_exchange_ops_returns [OF d2(2) d2(1) p2] by blast
      show ?thesis using Inr s1 perm False sd x s2 perm2 by (simp add: start Let_def)
    qed
  qed
  show "(\<exists>res. excit_gen H det D = Inr res) \<or> excit_gen H det D = Inl DrawsExhausted"
    by (rule main)
  show "\<exists>res. excit_gen H det D = Inr res"
    if a: "\<exists>r\<in>set (rnd_to D). r \<notin> set det"
    and b: "rnd_single D < p_single H \<or>
           (\<forall>orb_to. first_free det (rnd_to D) = Inr orb_to \<longrightarrow>
              (\<exists>(i, u)\<in>set (rnd_second D). u \<notin> set det \<and> u \<noteq> orb_to
                  \<and> sort (det[rnd_ind D := orb_to]) ! i \<noteq> orb_to))"
  proof -
    obtain orb_to where Inr: "first_free det (rnd_to D) = Inr orb_to"
      using first_free_returns [OF a] by blast
    have fr: "orb_to \<notin> set det" using first_free_Inr [OF Inr] by auto
    let ?ed2 = "sort (det[?i := orb_to])"
    have set2: "set ?ed2 = insert orb_to (set det - {det ! ?i})"
      using assms(2,3) by (simp add: set_update_distinct)
    have "rnd_single D < p_single H \<or>
          (\<exists>x. second_draw ?ed2 (det ! ?i) orb_to (rnd_second D) = Inr x)"
    proof (cases "rnd_single D < p_single H")
      case True
      then show ?thesis by simp
    next
      case False
      then have ex: "\<exists>(i, u)\<in>set (rnd_second D). u \<notin> set det \<and> u \<noteq> orb_to \<and> ?ed2 ! i \<noteq> orb_to"
        using b Inr by blast
      have "\<exists>(i, u)\<in>set (rnd_second D). u \<notin> set ?ed2 \<and> u \<noteq> det ! ?i \<and> ?ed2 ! i \<noteq> orb_to"
        using ex assms(3) unfolding set2 by (auto simp: nth_mem)
      moreover have "\<forall>(i, u)\<in>set (rnd_second D). i < length ?ed2" using assms(8) by simp
      ultimately show ?thesis using second_draw_returns by blast
    qed
    then show ?thesis using ret [OF Inr] by blast
  qed
qed

lemma excit_gen_example: "excit_gen ham_example [0, 2] draws_example = Inr ([1, 3], [[0, 2], [3, 1]], - 1, Finite (1 / 2))"
  by (simp add: excit_gen_def ham_example_def draws_example_def elec_exchange_ops_def exchange_step_def
      exchange_loop.simps step_of_def py_get_def py_set_def py_pos_def comb2_def Let_def)

text \<open>
  C8: whenever \<open>excit_gen\<close> returns, on a sorted duplicate-free determinant, the excited
  determinant is sorted, as long as the input and free of duplicates. It does return
  when the draws are in range and the resampling loops meet a draw they accept; with
  draws in range the only other end is a resampling loop that has used up its draws.
\<close>

theorem excit_gen_determinant:
  assumes "sorted det" and "distinct det"
  shows "(excit_gen H det D = Inr (ed, em, par, pr) \<longrightarrow>
            sorted ed \<and> length ed = length det \<and> distinct ed)
       \<and> (rnd_ind D < length det \<and> 0 < nbasis H \<and> nelec H = int (length det)
            \<and> (\<forall>p\<in>set det. int p < 2 * nbasis H)
            \<and> (\<forall>r\<in>set (rnd_to D). int r < 2 * nbasis H)
            \<and> (\<forall>(i, u)\<in>set (rnd_second D). i < length det) \<longrightarrow>
          ((\<exists>res. excit_gen H det D = Inr res) \<or> excit_gen H det D = Inl DrawsExhausted)
          \<and> ((\<exists>r\<in>set (rnd_to D). r \<notin> set det)
              \<and> (rnd_single D < p_single H \<or>
                   (\<forall>orb_to. first_free det (rnd_to D) = Inr orb_to \<longrightarrow>
                      (\<exists>(i, u)\<in>set (rnd_second D). u \<notin> set det \<and> u \<noteq> orb_to
                          \<and> sort (det[rnd_ind D := orb_to]) ! i \<noteq> orb_to))) \<longrightarrow>
              (\<exists>res. excit_gen H det D = Inr res)))"
proof -
  have part: "excit_gen H det D = Inr (ed, em, par, pr) \<longrightarrow>
            sorted ed \<and> length ed = length det \<and> distinct ed"
  proof
    assume r: "excit_gen H det D = Inr (ed, em, par, pr)"
    from excit_gen_cases [OF r] obtain orb_to where
      ff: "first_free det (rnd_to D) = Inr orb_to"
      and c: "ed = sort (det[rnd_ind D := orb_to]) \<or>
         (\<exists>ind2 orb_from_2 orb_to_2.
            second_draw (sort (det[rnd_ind D := orb_to])) (det ! rnd_ind D) orb_to (rnd_second D)
              = Inr (ind2, orb_from_2, orb_to_2)
            \<and> ed = sort ((sort (det[rnd_ind D := orb_to]))[ind2 := orb_to_2]))"
      by blast
    have fr: "orb_to \<notin> set det" using first_free_Inr [OF ff] by simp
    have d1: "distinct (sort (det[rnd_ind D := orb_to]))"
      using assms(2) fr by (simp add: distinct_update_fresh)
    from c show "sorted ed \<and> length ed = length det \<and> distinct ed"
    proof
      assume "ed = sort (det[rnd_ind D := orb_to])"
      then show ?thesis using d1 by simp
    next
      assume "\<exists>ind2 orb_from_2 orb_to_2.
            second_draw (sort (det[rnd_ind D := orb_to])) (det ! rnd_ind D) orb_to (rnd_second D)
              = Inr (ind2, orb_from_2, orb_to_2)
            \<and> ed = sort ((sort (det[rnd_ind D := orb_to]))[ind2 := orb_to_2])"
      then obtain ind2 orb_from_2 orb_to_2 where
        sd: "second_draw (sort (det[rnd_ind D := orb_to])) (det ! rnd_ind D) orb_to (rnd_second D)
              = Inr (ind2, orb_from_2, orb_to_2)"
        and e: "ed = sort ((sort (det[rnd_ind D := orb_to]))[ind2 := orb_to_2])"
        by blast
      have "orb_to_2 \<notin> set (sort (det[rnd_ind D := orb_to]))"
        using second_draw_Inr [OF sd] by blast
      then have "distinct ((sort (det[rnd_ind D := orb_to]))[ind2 := orb_to_2])"
        using d1 by (rule distinct_update_fresh [rotated])
      then show ?thesis using e by simp
    qed
  qed
  show ?thesis
    using part excit_gen_total [OF assms, of D H] by blast
qed

theorem excit_gen_determinant_witness:
  "sorted [0, 2 :: nat] \<and> distinct [0, 2 :: nat]
   \<and> excit_gen ham_example [0, 2] draws_example = Inr ([1, 3], [[0, 2], [3, 1]], - 1, Finite (1 / 2))
   \<and> sorted [1, 3 :: nat] \<and> length [1, 3 :: nat] = length [0, 2 :: nat] \<and> distinct [1, 3 :: nat]"
proof -
  have e: "excit_gen ham_example [0, 2] draws_example = Inr ([1, 3], [[0, 2], [3, 1]], - 1, Finite (1 / 2))"
    by (rule excit_gen_example)
  show ?thesis
    using excit_gen_determinant [of "[0, 2]" ham_example draws_example "[1, 3]" "[[0, 2], [3, 1]]" "- 1" "Finite (1 / 2)"] e
    by simp
qed

section \<open>Properties of the population loop\<close>

lemmas loop_defs = process_det_def accumulate_energy_def stochastic_round_def death_def h_at_def
  h_sim_at_def dict_add_def params_example_def dense_example_def stats_zero_def iteration_def

lemma ceil_quarter: "nat \<lceil>1 / 4 :: real\<rceil> = Suc 0"
proof -
  have "\<lceil>1 / 4 :: real\<rceil> = 1" by (rule ceiling_unique) simp_all
  then show ?thesis by simp
qed

text \<open>
  C1: the rounding block keeps a walker below the threshold exactly when the draw is
  below \<open>chi_fraction\<close>, but what it promotes is the local variable \<open>det_amp\<close>, and to
  \<open>+det_thresh\<close> whatever the sign of the weight. The entry of the map is not written:
  it keeps the old weight, from which the death step subtracts. For the walker
  \<open>-1/10\<close> on determinant 1, threshold \<open>1/4\<close> and draw \<open>1/10\<close>, the local weight
  becomes \<open>+1/4\<close> and the entry of the map ends at \<open>-41/400\<close>, not at \<open>-1/4\<close>.
\<close>

theorem rounding_keeps_unrounded_weight:
  "stochastic_round params_example (- 1 / 10) [1 / 10] = Inr (Some (1 / 4), [])
   \<and> process_det params_example dense_example (1, - 1 / 10)
       \<lparr>walkers = [(0, 10), (1, - 1 / 10)], spawned_walkers = [], sim_stats = stats_zero,
        gen = \<lparr>floats = [1 / 10], ints = [1, 2]\<rparr>\<rparr>
     = Inr \<lparr>walkers = [(0, 10), (1, - 41 / 400)], spawned_walkers = [(2, - 1 / 800)],
            sim_stats = \<lparr>cycle_en_num = - 1 / 20, cycle_en_denom = 0, ref_weight = 0,
                         nw = 1 / 4, nocc_dets = 1\<rparr>,
            gen = \<lparr>floats = [], ints = []\<rparr>\<rparr>"
  by (simp add: loop_defs ceil_quarter)

text \<open>
  C7 fails on the code: a spawn onto a determinant with a zero matrix element adds an
  entry of weight exactly zero, which the annihilation inserts in the map.
\<close>

theorem zero_weight_counterexample:
  "map_sum id walkers
     (iteration params_example dense_example
        \<lparr>walkers = [(0, 1)], spawned_walkers = [], sim_stats = stats_zero,
         gen = \<lparr>floats = [], ints = [2]\<rparr>\<rparr>)
   = Inr [(0, 1), (2, 0)]"
  by (simp add: loop_defs)

section \<open>Counting the draws of a resampling loop\<close>

lemma find_lists_Suc:
  assumes "a \<in> A" and "P a"
  shows "{xs. length xs = Suc k \<and> set xs \<subseteq> A \<and> find P xs = Some a}
       = (\<lambda>xs. a # xs) ` {xs. length xs = k \<and> set xs \<subseteq> A}
         \<union> (\<lambda>(x, xs). x # xs) ` ({x \<in> A. \<not> P x} \<times> {xs. length xs = k \<and> set xs \<subseteq> A \<and> find P xs = Some a})"
    (is "?E = ?F \<union> ?G")
proof (intro set_eqI iffI)
  fix ys assume "ys \<in> ?E"
  then obtain x xs where ys: "ys = x # xs" and l: "length xs = k" and s: "x \<in> A" "set xs \<subseteq> A"
    and f: "find P (x # xs) = Some a"
    by (cases ys) auto
  show "ys \<in> ?F \<union> ?G"
  proof (cases "P x")
    case True
    then have "x = a" using f by simp
    then show ?thesis using ys l s by auto
  next
    case False
    then have "find P xs = Some a" using f by simp
    then have "(x, xs) \<in> {x \<in> A. \<not> P x} \<times> {xs. length xs = k \<and> set xs \<subseteq> A \<and> find P xs = Some a}"
      using False l s by simp
    then show ?thesis unfolding ys by (intro UnI2) (rule image_eqI [where x = "(x, xs)"], simp_all)
  qed
next
  fix ys assume "ys \<in> ?F \<union> ?G"
  then show "ys \<in> ?E" using assms by auto
qed

lemma card_find_lists:
  assumes "finite A" and "a \<in> A" and "P a"
  shows "card {xs. length xs = k \<and> set xs \<subseteq> A \<and> find P xs = Some a} * card {x \<in> A. P x}
           + card {x \<in> A. \<not> P x} ^ k = card A ^ k"
proof (induction k)
  case 0
  then show ?case by simp
next
  case (Suc k)
  let ?L = "{xs. length xs = k \<and> set xs \<subseteq> A}"
  let ?E = "{xs. length xs = k \<and> set xs \<subseteq> A \<and> find P xs = Some a}"
  let ?R = "{x \<in> A. \<not> P x}"
  let ?M = "{x \<in> A. P x}"
  have fL: "finite ?L" using finite_lists_length_eq [OF assms(1), of k] by (simp add: conj_commute)
  have fE: "finite ?E" by (rule finite_subset [OF _ fL]) auto
  have fR: "finite ?R" using assms(1) by simp
  have cL: "card ?L = card A ^ k"
    using card_lists_length_eq [OF assms(1), of k] by (simp add: conj_commute)
  have c1: "card ((\<lambda>xs. a # xs) ` ?L) = card A ^ k"
    by (subst card_image) (simp_all add: inj_on_def cL)
  have c2: "card ((\<lambda>(x, xs). x # xs) ` (?R \<times> ?E)) = card ?R * card ?E"
    by (subst card_image) (auto simp: inj_on_def card_cartesian_product)
  have dj: "(\<lambda>xs. a # xs) ` ?L \<inter> (\<lambda>(x, xs). x # xs) ` (?R \<times> ?E) = {}"
    using assms(3) by auto
  have "card {xs. length xs = Suc k \<and> set xs \<subseteq> A \<and> find P xs = Some a}
      = card A ^ k + card ?R * card ?E"
    unfolding find_lists_Suc [of a A P k, OF assms(2,3)]
    by (subst card_Un_disjoint) (simp_all add: fL fE fR dj c1 c2)
  moreover have "card ?M + card ?R = card A"
  proof -
    have "?M \<union> ?R = A" "?M \<inter> ?R = {}" by auto
    then show ?thesis using card_Un_disjoint [of ?M ?R] assms(1) by simp
  qed
  ultimately have E: "card {xs. length xs = Suc k \<and> set xs \<subseteq> A \<and> find P xs = Some a}
      = card A ^ k + card ?R * card ?E" and MR: "card ?M + card ?R = card A"
    by simp_all
  have "(card A ^ k + card ?R * card ?E) * card ?M + card ?R ^ Suc k
      = card A ^ k * card ?M + card ?R * (card ?E * card ?M + card ?R ^ k)"
    by (simp add: algebra_simps)
  also have "\<dots> = card A ^ k * card ?M + card ?R * card A ^ k"
    using Suc by simp
  also have "\<dots> = card A ^ k * (card ?M + card ?R)"
    by (simp add: algebra_simps)
  also have "\<dots> = card A ^ Suc k"
    by (simp add: MR)
  finally show ?case unfolding E .
qed

lemma frequency_limit:
  fixes c :: "nat \<Rightarrow> nat"
  assumes "\<And>k. c k * M + R ^ k = N ^ k" and "0 < M" and "R < N"
  shows "(\<lambda>k. real (c k) / real (N ^ k)) \<longlonglongrightarrow> 1 / real M"
proof -
  have N: "0 < N" using assms(3) by simp
  have eq: "real (c k) / real (N ^ k) = (1 - (real R / real N) ^ k) / real M" for k
  proof -
    have "real (c k) * real M + real R ^ k = real N ^ k"
      using assms(1) [of k] by (metis of_nat_add of_nat_mult of_nat_power)
    then have "real (c k) = (real N ^ k - real R ^ k) / real M"
      using assms(2) by (simp add: field_simps)
    then show ?thesis using N by (simp add: field_simps power_divide)
  qed
  have "0 \<le> real R / real N" "real R / real N < 1" using assms(3) N by simp_all
  then have "(\<lambda>k. (real R / real N) ^ k) \<longlonglongrightarrow> 0" by (rule LIMSEQ_realpow_zero)
  then have "(\<lambda>k. 1 - (real R / real N) ^ k) \<longlonglongrightarrow> 1 - 0"
    by (intro tendsto_diff tendsto_const)
  then have "(\<lambda>k. (1 - (real R / real N) ^ k) / real M) \<longlonglongrightarrow> (1 - 0) / real M"
    by (rule tendsto_divide [OF _ tendsto_const]) (use assms(2) in simp)
  then have "(\<lambda>k. (1 - (real R / real N) ^ k) / real M) \<longlonglongrightarrow> 1 / real M"
    by simp
  then show ?thesis by (simp only: eq)
qed

section \<open>The spawning block\<close>

lemma draw_target_Inr:
  "draw_target d rs = Inr (t, rest) \<Longrightarrow> t \<noteq> d \<and> t \<in> set rs \<and> set rest \<subseteq> set rs"
  by (induction rs) (auto split: if_splits)

lemma draw_target_Inl: "draw_target d rs = Inl e \<Longrightarrow> e = DrawsExhausted"
  by (induction rs) (auto split: if_splits)

lemma draw_target_find:
  "(\<exists>rest. draw_target d rs = Inr (t, rest)) \<longleftrightarrow> find (\<lambda>r. r \<noteq> d) rs = Some t"
  by (induction rs) auto

lemma spawning_Inr:
  "spawning P Hd d w n todo sp rs = Inr (sp', rs') \<Longrightarrow>
   \<exists>targets. length targets = todo \<and> (\<forall>t\<in>set targets. t \<noteq> d \<and> t < ndet Hd \<and> t \<in> set rs)
     \<and> sp' = foldl (\<lambda>b t. dict_add b t (spawn_weight_of P Hd d w n t)) sp targets
     \<and> set rs' \<subseteq> set rs"
proof (induction todo arbitrary: sp rs)
  case 0
  then show ?case by simp
next
  case (Suc todo)
  from Suc.prems obtain t rs1 h where
    dt: "draw_target d rs = Inr (t, rs1)" and h: "h_at Hd d t = Inr h"
    and rec: "spawning P Hd d w n todo
        (dict_add sp t (- timestep P * h * w / (1 / real (ndet Hd - 1) * real n))) rs1 = Inr (sp', rs')"
    by (auto simp: bindE_eq_Inr Let_def split: if_splits prod.splits)
  have hv: "h = full_h Hd d t" "t < ndet Hd" using h by (auto simp: h_at_def split: if_splits)
  from Suc.IH [OF rec] obtain targets where
    T: "length targets = todo" "\<forall>t\<in>set targets. t \<noteq> d \<and> t < ndet Hd \<and> t \<in> set rs1"
       "sp' = foldl (\<lambda>b t. dict_add b t (spawn_weight_of P Hd d w n t))
                (dict_add sp t (- timestep P * h * w / (1 / real (ndet Hd - 1) * real n))) targets"
       "set rs' \<subseteq> set rs1"
    by blast
  have sub: "t \<noteq> d" "t \<in> set rs" "set rs1 \<subseteq> set rs" using draw_target_Inr [OF dt] by auto
  show ?case
  proof (intro exI [where x = "t # targets"] conjI)
    show "length (t # targets) = Suc todo" using T(1) by simp
    show "\<forall>t\<in>set (t # targets). t \<noteq> d \<and> t < ndet Hd \<and> t \<in> set rs"
      using T(2) sub hv(2) by auto
    show "sp' = foldl (\<lambda>b t. dict_add b t (spawn_weight_of P Hd d w n t)) sp (t # targets)"
      using T(3) hv(1) by (simp add: spawn_weight_of_def)
    show "set rs' \<subseteq> set rs" using T(4) sub(3) by blast
  qed
qed

lemma spawning_Inl:
  "d < ndet Hd \<Longrightarrow> 2 \<le> ndet Hd \<Longrightarrow> \<forall>r\<in>set rs. r < ndet Hd \<Longrightarrow>
   spawning P Hd d w n todo sp rs = Inl e \<Longrightarrow> e = DrawsExhausted"
proof (induction todo arbitrary: sp rs)
  case 0
  then show ?case by simp
next
  case (Suc todo)
  show ?case
  proof (cases "draw_target d rs")
    case (Inl e')
    then show ?thesis using Suc.prems draw_target_Inl [OF Inl] by simp
  next
    case (Inr x)
    obtain t rs1 where x: "x = (t, rs1)" by (cases x)
    have sub: "t \<in> set rs" "set rs1 \<subseteq> set rs" using draw_target_Inr [OF Inr [unfolded x]] by auto
    then have t: "t < ndet Hd" and r1: "\<forall>r\<in>set rs1. r < ndet Hd" using Suc.prems(3) by auto
    have h: "h_at Hd d t = Inr (full_h Hd d t)" using t Suc.prems(1) by (simp add: h_at_def)
    show ?thesis
      using Suc.prems(2,4) Inr x h Suc.IH [OF Suc.prems(1,2) r1]
      by (auto simp: Let_def)
  qed
qed

text \<open>The spawning does not look at what the buffer holds.\<close>

lemma spawning_buffer_independent:
  "spawning P Hd d w n todo sp rs = Inr (sp', rs') \<Longrightarrow>
   \<exists>targets. sp' = foldl (\<lambda>b t. dict_add b t (spawn_weight_of P Hd d w n t)) sp targets
     \<and> (\<forall>sp2. spawning P Hd d w n todo sp2 rs
            = Inr (foldl (\<lambda>b t. dict_add b t (spawn_weight_of P Hd d w n t)) sp2 targets, rs'))"
proof (induction todo arbitrary: sp rs)
  case 0
  then show ?case by (intro exI [where x = "[]"]) simp
next
  case (Suc todo)
  from Suc.prems obtain t rs1 h where
    dt: "draw_target d rs = Inr (t, rs1)" and h: "h_at Hd d t = Inr h"
    and n0: "ndet Hd \<noteq> 0" "ndet Hd \<noteq> 1"
    and rec: "spawning P Hd d w n todo
        (dict_add sp t (- timestep P * h * w / (1 / real (ndet Hd - 1) * real n))) rs1 = Inr (sp', rs')"
    by (auto simp: bindE_eq_Inr Let_def split: if_splits prod.splits)
  have hv: "h = full_h Hd d t" using h by (auto simp: h_at_def split: if_splits)
  from Suc.IH [OF rec] obtain targets where
    T: "sp' = foldl (\<lambda>b t. dict_add b t (spawn_weight_of P Hd d w n t))
                (dict_add sp t (- timestep P * h * w / (1 / real (ndet Hd - 1) * real n))) targets"
       "\<forall>sp2. spawning P Hd d w n todo sp2 rs1
            = Inr (foldl (\<lambda>b t. dict_add b t (spawn_weight_of P Hd d w n t)) sp2 targets, rs')"
    by blast
  show ?case
  proof (intro exI [where x = "t # targets"] conjI allI)
    show "sp' = foldl (\<lambda>b t. dict_add b t (spawn_weight_of P Hd d w n t)) sp (t # targets)"
      using T(1) hv by (simp add: spawn_weight_of_def)
    fix sp2
    show "spawning P Hd d w n (Suc todo) sp2 rs
        = Inr (foldl (\<lambda>b t. dict_add b t (spawn_weight_of P Hd d w n t)) sp2 (t # targets), rs')"
      using dt h n0 T(2) hv by (simp add: Let_def spawn_weight_of_def)
  qed
qed

lemma spawning_error_independent:
  "spawning P Hd d w n todo sp rs = Inl e \<Longrightarrow> spawning P Hd d w n todo sp2 rs = Inl e"
proof (induction todo arbitrary: sp sp2 rs)
  case 0
  then show ?case by simp
next
  case (Suc todo)
  show ?case
  proof (cases "ndet Hd = 0")
    case True
    then show ?thesis using Suc.prems by simp
  next
    case n0: False
    show ?thesis
    proof (cases "draw_target d rs")
      case (Inl e')
      then show ?thesis using Suc.prems n0 by simp
    next
      case (Inr x)
      obtain t rs1 where x: "x = (t, rs1)" by (cases x)
      show ?thesis
      proof (cases "ndet Hd = 1")
        case True
        then show ?thesis using Suc.prems n0 Inr x by simp
      next
        case n1: False
        show ?thesis
        proof (cases "h_at Hd d t")
          case (Inl e')
          then show ?thesis using Suc.prems n0 n1 Inr x by simp
        next
          case h: (Inr hv)
          show ?thesis
            using Suc.prems n0 n1 Inr x h Suc.IH by (simp add: Let_def)
        qed
      qed
    qed
  qed
qed

section \<open>The sweep and the annihilation\<close>

lemma map_of_dict_add:
  "map_of (dict_add d k w) k' =
     (if k' = k then Some (case map_of d k of None \<Rightarrow> w | Some v \<Rightarrow> v + w) else map_of d k')"
  by (simp add: dict_add_def update_conv' split: option.splits)

lemma distinct_dict_add: "distinct (map fst d) \<Longrightarrow> distinct (map fst (dict_add d k w))"
  by (simp add: dict_add_def distinct_update split: option.splits)

lemma map_of_annihilation:
  "distinct (map fst sp) \<Longrightarrow>
   map_of (annihilation sp w) k =
     (case map_of sp k of
        None \<Rightarrow> map_of w k
      | Some s \<Rightarrow> Some (case map_of w k of None \<Rightarrow> s | Some v \<Rightarrow> v + s))"
proof (induction sp arbitrary: w)
  case Nil
  then show ?case by simp
next
  case (Cons p sp)
  obtain j x where p: "p = (j, x)" by (cases p)
  have d: "distinct (map fst sp)" and nj: "map_of sp j = None"
    using Cons.prems p by (auto simp: map_of_eq_None_iff)
  show ?case
    using Cons.IH [OF d, of "dict_add w j x"] nj
    by (auto simp: p map_of_dict_add split: option.splits)
qed

lemma distinct_foldl_dict_add:
  "distinct (map fst sp) \<Longrightarrow> distinct (map fst (foldl (\<lambda>b t. dict_add b t (f t)) sp ts))"
  by (induction ts arbitrary: sp) (simp_all add: distinct_dict_add)

lemma stochastic_round_floats:
  "stochastic_round P a fl = Inr (kept, fl') \<Longrightarrow> set fl' \<subseteq> set fl"
  by (auto simp: stochastic_round_def Let_def split: if_splits list.splits)

lemma stochastic_round_zero:
  "0 < det_thresh P \<Longrightarrow> \<forall>u\<in>set fl. 0 \<le> u \<Longrightarrow> stochastic_round P 0 fl = Inr (kept, fl') \<Longrightarrow>
   kept = None"
  by (auto simp: stochastic_round_def Let_def split: if_splits list.splits)

lemma process_det_cases:
  assumes "process_det P Hd (d, a) S = Inr S'"
  shows "\<exists>st1 kept fl. accumulate_energy Hd d a (sim_stats S) = Inr st1
      \<and> stochastic_round P a (floats (gen S)) = Inr (kept, fl)
      \<and> (case kept of
            None \<Rightarrow> map_of (walkers S) d \<noteq> None
              \<and> S' = S\<lparr>walkers := AList.delete d (walkers S), sim_stats := st1,
                        gen := (gen S)\<lparr>floats := fl\<rparr>\<rparr>
          | Some w \<Rightarrow>
              (\<exists>sp rs wk. spawning P Hd d w (nat \<lceil>\<bar>w\<bar>\<rceil>) (nat \<lceil>\<bar>w\<bar>\<rceil>) (spawned_walkers S) (ints (gen S))
                           = Inr (sp, rs)
                 \<and> death P Hd d w (walkers S) = Inr wk
                 \<and> S' = \<lparr>walkers = wk, spawned_walkers = sp,
                         sim_stats = st1\<lparr>nw := nw st1 + \<bar>w\<bar>, nocc_dets := nocc_dets st1 + 1\<rparr>,
                         gen = \<lparr>floats = fl, ints = rs\<rparr>\<rparr>))"
proof -
  from assms obtain st1 x where
    a: "accumulate_energy Hd d a (sim_stats S) = Inr st1"
    and r: "stochastic_round P a (floats (gen S)) = Inr x"
    and k: "(case x of (kept, fl) \<Rightarrow>
          case kept of
            None \<Rightarrow>
              (if map_of (walkers S) d = None then Inl KeyError
               else Inr (S\<lparr>walkers := AList.delete d (walkers S), sim_stats := st1,
                           gen := (gen S)\<lparr>floats := fl\<rparr>\<rparr>))
          | Some amp \<Rightarrow>
              (let st2 = st1\<lparr>nw := nw st1 + \<bar>amp\<bar>, nocc_dets := nocc_dets st1 + 1\<rparr>;
                   nspawn = nat \<lceil>\<bar>amp\<bar>\<rceil>
               in bindE (spawning P Hd d amp nspawn nspawn (spawned_walkers S) (ints (gen S)))
                    (\<lambda>(spawned, rs).
                  bindE (death P Hd d amp (walkers S)) (\<lambda>w.
                  Inr \<lparr>walkers = w, spawned_walkers = spawned, sim_stats = st2,
                       gen = \<lparr>floats = fl, ints = rs\<rparr>\<rparr>)))) = Inr S'"
    by (auto simp: process_det_def bindE_eq_Inr)
  obtain kept fl where x: "x = (kept, fl)" by (cases x)
  show ?thesis
  proof (cases kept)
    case None
    then show ?thesis using a r k x by (auto split: if_splits)
  next
    case (Some w)
    then show ?thesis using a r k x by (auto simp: Let_def bindE_eq_Inr)
  qed
qed

lemma death_Inr:
  "death P Hd d w wk = Inr wk' \<Longrightarrow>
   \<exists>v. map_of wk d = Some v
     \<and> wk' = AList.update d (v - timestep P * (full_h Hd d d - full_h Hd 0 0 - shift P) * w) wk"
  by (auto simp: death_def bindE_eq_Inr h_at_def split: option.splits if_splits)

lemma process_det_other_keys:
  assumes "process_det P Hd (d, a) S = Inr S'" and "k \<noteq> d"
  shows "map_of (walkers S') k = map_of (walkers S) k"
proof -
  from process_det_cases [OF assms(1)] obtain st1 kept fl where
    c: "case kept of
            None \<Rightarrow> map_of (walkers S) d \<noteq> None
              \<and> S' = S\<lparr>walkers := AList.delete d (walkers S), sim_stats := st1,
                        gen := (gen S)\<lparr>floats := fl\<rparr>\<rparr>
          | Some w \<Rightarrow>
              (\<exists>sp rs wk. spawning P Hd d w (nat \<lceil>\<bar>w\<bar>\<rceil>) (nat \<lceil>\<bar>w\<bar>\<rceil>) (spawned_walkers S) (ints (gen S))
                           = Inr (sp, rs)
                 \<and> death P Hd d w (walkers S) = Inr wk
                 \<and> S' = \<lparr>walkers = wk, spawned_walkers = sp,
                         sim_stats = st1\<lparr>nw := nw st1 + \<bar>w\<bar>, nocc_dets := nocc_dets st1 + 1\<rparr>,
                         gen = \<lparr>floats = fl, ints = rs\<rparr>\<rparr>)"
    by blast
  show ?thesis
  proof (cases kept)
    case None
    then show ?thesis using c assms(2) by (simp add: delete_conv')
  next
    case (Some w)
    then obtain wk where dth: "death P Hd d w (walkers S) = Inr wk" and w: "walkers S' = wk"
      using c by auto
    from death_Inr [OF dth] show ?thesis using assms(2) w by (auto simp: update_conv')
  qed
qed

lemma process_det_floats:
  assumes "process_det P Hd (d, a) S = Inr S'"
  shows "set (floats (gen S')) \<subseteq> set (floats (gen S))"
proof -
  from process_det_cases [OF assms(1)] obtain st1 kept fl where
    r: "stochastic_round P a (floats (gen S)) = Inr (kept, fl)"
    and c: "case kept of
            None \<Rightarrow> map_of (walkers S) d \<noteq> None
              \<and> S' = S\<lparr>walkers := AList.delete d (walkers S), sim_stats := st1,
                        gen := (gen S)\<lparr>floats := fl\<rparr>\<rparr>
          | Some w \<Rightarrow>
              (\<exists>sp rs wk. spawning P Hd d w (nat \<lceil>\<bar>w\<bar>\<rceil>) (nat \<lceil>\<bar>w\<bar>\<rceil>) (spawned_walkers S) (ints (gen S))
                           = Inr (sp, rs)
                 \<and> death P Hd d w (walkers S) = Inr wk
                 \<and> S' = \<lparr>walkers = wk, spawned_walkers = sp,
                         sim_stats = st1\<lparr>nw := nw st1 + \<bar>w\<bar>, nocc_dets := nocc_dets st1 + 1\<rparr>,
                         gen = \<lparr>floats = fl, ints = rs\<rparr>\<rparr>)"
    by blast
  have "floats (gen S') = fl" using c by (cases kept) auto
  then show ?thesis using stochastic_round_floats [OF r] by simp
qed

lemma process_det_zero:
  assumes "process_det P Hd (d, 0) S = Inr S'" and "0 < det_thresh P"
    and "\<forall>u\<in>set (floats (gen S)). 0 \<le> u"
  shows "walkers S' = AList.delete d (walkers S) \<and> spawned_walkers S' = spawned_walkers S"
proof -
  from process_det_cases [OF assms(1)] obtain st1 kept fl where
    r: "stochastic_round P 0 (floats (gen S)) = Inr (kept, fl)"
    and c: "case kept of
            None \<Rightarrow> map_of (walkers S) d \<noteq> None
              \<and> S' = S\<lparr>walkers := AList.delete d (walkers S), sim_stats := st1,
                        gen := (gen S)\<lparr>floats := fl\<rparr>\<rparr>
          | Some w \<Rightarrow>
              (\<exists>sp rs wk. spawning P Hd d w (nat \<lceil>\<bar>w\<bar>\<rceil>) (nat \<lceil>\<bar>w\<bar>\<rceil>) (spawned_walkers S) (ints (gen S))
                           = Inr (sp, rs)
                 \<and> death P Hd d w (walkers S) = Inr wk
                 \<and> S' = \<lparr>walkers = wk, spawned_walkers = sp,
                         sim_stats = st1\<lparr>nw := nw st1 + \<bar>w\<bar>, nocc_dets := nocc_dets st1 + 1\<rparr>,
                         gen = \<lparr>floats = fl, ints = rs\<rparr>\<rparr>)"
    by blast
  have "kept = None" using stochastic_round_zero [OF assms(2,3) r] .
  then show ?thesis using c by simp
qed

lemma sweep_other_keys:
  "sweep P Hd es S = Inr S' \<Longrightarrow> k \<notin> fst ` set es \<Longrightarrow> map_of (walkers S') k = map_of (walkers S) k"
proof (induction es arbitrary: S)
  case Nil
  then show ?case by simp
next
  case (Cons e es)
  obtain d a where e: "e = (d, a)" by (cases e)
  from Cons.prems(1) obtain S1 where
    p: "process_det P Hd (d, a) S = Inr S1" and s: "sweep P Hd es S1 = Inr S'"
    by (auto simp: e bindE_eq_Inr)
  have "k \<noteq> d" "k \<notin> fst ` set es" using Cons.prems(2) e by auto
  then show ?case using Cons.IH [OF s] process_det_other_keys [OF p] by simp
qed

lemma sweep_floats:
  "sweep P Hd es S = Inr S' \<Longrightarrow> set (floats (gen S')) \<subseteq> set (floats (gen S))"
proof (induction es arbitrary: S)
  case Nil
  then show ?case by simp
next
  case (Cons e es)
  obtain d a where e: "e = (d, a)" by (cases e)
  from Cons.prems(1) obtain S1 where
    p: "process_det P Hd (d, a) S = Inr S1" and s: "sweep P Hd es S1 = Inr S'"
    by (auto simp: e bindE_eq_Inr)
  show ?case using Cons.IH [OF s] process_det_floats [OF p] by blast
qed

lemma sweep_zero_deleted:
  "sweep P Hd es S = Inr S' \<Longrightarrow> distinct (map fst es) \<Longrightarrow> (d, 0) \<in> set es \<Longrightarrow>
   0 < det_thresh P \<Longrightarrow> \<forall>u\<in>set (floats (gen S)). 0 \<le> u \<Longrightarrow>
   map_of (walkers S') d = None"
proof (induction es arbitrary: S)
  case Nil
  then show ?case by simp
next
  case (Cons e es)
  obtain j a where e: "e = (j, a)" by (cases e)
  from Cons.prems(1) obtain S1 where
    p: "process_det P Hd (j, a) S = Inr S1" and s: "sweep P Hd es S1 = Inr S'"
    by (auto simp: e bindE_eq_Inr)
  have fl1: "\<forall>u\<in>set (floats (gen S1)). 0 \<le> u"
    using process_det_floats [OF p] Cons.prems(5) by blast
  show ?case
  proof (cases "e = (d, 0)")
    case True
    then have jd: "j = d" "a = 0" using e by auto
    have "d \<notin> fst ` set es" using Cons.prems(2) e jd by auto
    then have "map_of (walkers S') d = map_of (walkers S1) d"
      using sweep_other_keys [OF s] by simp
    also have "\<dots> = None"
      using process_det_zero [OF p [unfolded jd] Cons.prems(4,5)] by (simp add: delete_conv')
    finally show ?thesis .
  next
    case False
    then have "(d, 0) \<in> set es" using Cons.prems(3) by simp
    moreover have "distinct (map fst es)" using Cons.prems(2) by simp
    ultimately show ?thesis using Cons.IH [OF s _ _ Cons.prems(4) fl1] by blast
  qed
qed

lemma process_det_buffer_distinct:
  assumes "process_det P Hd (d, a) S = Inr S'" and "distinct (map fst (spawned_walkers S))"
  shows "distinct (map fst (spawned_walkers S'))"
proof -
  from process_det_cases [OF assms(1)] obtain st1 kept fl where
    c: "case kept of
            None \<Rightarrow> map_of (walkers S) d \<noteq> None
              \<and> S' = S\<lparr>walkers := AList.delete d (walkers S), sim_stats := st1,
                        gen := (gen S)\<lparr>floats := fl\<rparr>\<rparr>
          | Some w \<Rightarrow>
              (\<exists>sp rs wk. spawning P Hd d w (nat \<lceil>\<bar>w\<bar>\<rceil>) (nat \<lceil>\<bar>w\<bar>\<rceil>) (spawned_walkers S) (ints (gen S))
                           = Inr (sp, rs)
                 \<and> death P Hd d w (walkers S) = Inr wk
                 \<and> S' = \<lparr>walkers = wk, spawned_walkers = sp,
                         sim_stats = st1\<lparr>nw := nw st1 + \<bar>w\<bar>, nocc_dets := nocc_dets st1 + 1\<rparr>,
                         gen = \<lparr>floats = fl, ints = rs\<rparr>\<rparr>)"
    by blast
  show ?thesis
  proof (cases kept)
    case None
    then show ?thesis using c assms(2) by simp
  next
    case (Some w)
    then obtain sp rs where
      sp: "spawning P Hd d w (nat \<lceil>\<bar>w\<bar>\<rceil>) (nat \<lceil>\<bar>w\<bar>\<rceil>) (spawned_walkers S) (ints (gen S)) = Inr (sp, rs)"
      and e: "spawned_walkers S' = sp"
      using c by auto
    from spawning_Inr [OF sp] show ?thesis
      using e assms(2) by (auto simp: distinct_foldl_dict_add)
  qed
qed

lemma sweep_buffer_distinct:
  "sweep P Hd es S = Inr S' \<Longrightarrow> distinct (map fst (spawned_walkers S)) \<Longrightarrow>
   distinct (map fst (spawned_walkers S'))"
proof (induction es arbitrary: S)
  case Nil
  then show ?case by simp
next
  case (Cons e es)
  obtain d a where e: "e = (d, a)" by (cases e)
  from Cons.prems(1) obtain S1 where
    p: "process_det P Hd (d, a) S = Inr S1" and s: "sweep P Hd es S1 = Inr S'"
    by (auto simp: e bindE_eq_Inr)
  show ?case using Cons.IH [OF s] process_det_buffer_distinct [OF p Cons.prems(2)] by blast
qed

lemma iteration_cases:
  assumes "iteration P Hd S = Inr S'"
  shows "\<exists>S1. sweep P Hd (walkers S)
             (S\<lparr>spawned_walkers := [],
                sim_stats := (sim_stats S)\<lparr>nw := 0, ref_weight := 0, nocc_dets := 0\<rparr>\<rparr>) = Inr S1
          \<and> S' = S1\<lparr>walkers := annihilation (spawned_walkers S1) (walkers S1)\<rparr>
          \<and> distinct (map fst (spawned_walkers S1))"
proof -
  from assms obtain S1 where
    s: "sweep P Hd (walkers S)
             (S\<lparr>spawned_walkers := [],
                sim_stats := (sim_stats S)\<lparr>nw := 0, ref_weight := 0, nocc_dets := 0\<rparr>\<rparr>) = Inr S1"
    and e: "S' = S1\<lparr>walkers := annihilation (spawned_walkers S1) (walkers S1)\<rparr>"
    by (auto simp: iteration_def Let_def bindE_eq_Inr)
  have "distinct (map fst (spawned_walkers S1))"
    using sweep_buffer_distinct [OF s] by simp
  then show ?thesis using s e by blast
qed

section \<open>The claims about the population loop\<close>

lemma target_frequency:
  assumes "d < N" and "t < N" and "t \<noteq> d"
  shows "(\<lambda>k. real (card {rs. length rs = k \<and> set rs \<subseteq> {..<N} \<and> (\<exists>rest. draw_target d rs = Inr (t, rest))})
              / real (N ^ k))
         \<longlonglongrightarrow> 1 / real (N - 1)"
proof -
  let ?c = "\<lambda>k. card {xs. length xs = k \<and> set xs \<subseteq> {..<N} \<and> find (\<lambda>r. r \<noteq> d) xs = Some t}"
  have M: "card {x \<in> {..<N}. x \<noteq> d} = N - 1"
  proof -
    have "{x \<in> {..<N}. x \<noteq> d} = {..<N} - {d}" by auto
    then show ?thesis using assms(1) by simp
  qed
  have R: "card {x \<in> {..<N}. \<not> x \<noteq> d} = 1"
  proof -
    have "{x \<in> {..<N}. \<not> x \<noteq> d} = {d}" using assms(1) by auto
    then show ?thesis by simp
  qed
  have "?c k * (N - 1) + 1 ^ k = N ^ k" for k
  proof -
    have "?c k * card {x \<in> {..<N}. x \<noteq> d} + card {x \<in> {..<N}. \<not> x \<noteq> d} ^ k = card {..<N} ^ k"
      by (rule card_find_lists) (use assms in simp_all)
    then show ?thesis by (simp only: M R card_lessThan)
  qed
  moreover have "0 < N - 1" "1 < N" using assms by auto
  ultimately have "(\<lambda>k. real (?c k) / real (N ^ k)) \<longlonglongrightarrow> 1 / real (N - 1)"
    by (intro frequency_limit [where R = 1]) auto
  then show ?thesis by (simp only: draw_target_find)
qed

lemma process_det_example:
  "process_det params_example dense_example (1, - 1 / 10) sim_example
     = Inr \<lparr>walkers = [(0, 10), (1, - 41 / 400)], spawned_walkers = [(2, - 1 / 800)],
            sim_stats = \<lparr>cycle_en_num = - 1 / 20, cycle_en_denom = 0, ref_weight = 0,
                         nw = 1 / 4, nocc_dets = 1\<rparr>,
            gen = \<lparr>floats = [], ints = []\<rparr>\<rparr>"
  by (simp add: loop_defs ceil_quarter sim_example_def)

lemma stochastic_round_example:
  "stochastic_round params_example (- 1 / 10) (floats (gen sim_example)) = Inr (Some (1 / 4), [])"
  by (simp add: loop_defs sim_example_def)

text \<open>
  C5 fails on the code for a walker of negative weight below the threshold. The spawn
  attempts use the local variable \<open>det_amp\<close>, which the rounding block has set to
  \<open>+det_thresh\<close>: the walker \<open>-1/10\<close> on determinant 1 (threshold \<open>1/4\<close>, draw
  \<open>1/10\<close>, target 2) puts \<open>-1/800\<close> in the buffer, the weight of a spawn from
  \<open>+1/4\<close>. A walker that survives the rounding with its sign has the weight \<open>-1/4\<close>,
  for which \<open>-timestep * H[source, target] * w / (p_spawn * nspawn)\<close> is \<open>+1/800\<close>.
\<close>

theorem spawning_from_unsigned_threshold:
  "map_sum id spawned_walkers (process_det params_example dense_example (1, - 1 / 10) sim_example)
     = Inr [(2, - 1 / 800)]
   \<and> spawn_weight_of params_example dense_example 1 (- 1 / 4) (nat \<lceil>\<bar>- 1 / 4 :: real\<bar>\<rceil>) 2 = 1 / 800"
proof -
  have a: "map_sum id spawned_walkers (process_det params_example dense_example (1, - 1 / 10) sim_example)
      = Inr [(2, - 1 / 800)]"
    unfolding process_det_example by simp
  have b: "spawn_weight_of params_example dense_example 1 (- 1 / 4) (nat \<lceil>\<bar>- 1 / 4 :: real\<bar>\<rceil>) 2 = 1 / 800"
    by (simp add: spawn_weight_of_def params_example_def dense_example_def ceil_quarter)
  show ?thesis using a b by (rule conjI)
qed

lemma foldl_dict_add_map:
  "foldl (\<lambda>b (t, x). dict_add b t x) sp (map (\<lambda>t. (t, f t)) ts) = foldl (\<lambda>b t. dict_add b t (f t)) sp ts"
  by (induction ts arbitrary: sp) simp_all

lemma process_det_buffer_independent:
  assumes "process_det P Hd e (S\<lparr>spawned_walkers := sp\<rparr>) = Inr S'"
  shows "\<exists>incs. \<forall>sp2. process_det P Hd e (S\<lparr>spawned_walkers := sp2\<rparr>)
            = Inr (S'\<lparr>spawned_walkers := foldl (\<lambda>b (t, x). dict_add b t x) sp2 incs\<rparr>)"
proof -
  obtain d a where e: "e = (d, a)" by (cases e)
  let ?S = "S\<lparr>spawned_walkers := sp\<rparr>"
  from process_det_cases [OF assms [unfolded e]] obtain st1 kept fl where
    ac': "accumulate_energy Hd d a (sim_stats ?S) = Inr st1"
    and r': "stochastic_round P a (floats (gen ?S)) = Inr (kept, fl)"
    and c': "case kept of
            None \<Rightarrow> map_of (walkers ?S) d \<noteq> None
              \<and> S' = ?S\<lparr>walkers := AList.delete d (walkers ?S), sim_stats := st1,
                        gen := (gen ?S)\<lparr>floats := fl\<rparr>\<rparr>
          | Some w \<Rightarrow>
              (\<exists>sp' rs wk. spawning P Hd d w (nat \<lceil>\<bar>w\<bar>\<rceil>) (nat \<lceil>\<bar>w\<bar>\<rceil>) (spawned_walkers ?S) (ints (gen ?S))
                           = Inr (sp', rs)
                 \<and> death P Hd d w (walkers ?S) = Inr wk
                 \<and> S' = \<lparr>walkers = wk, spawned_walkers = sp',
                         sim_stats = st1\<lparr>nw := nw st1 + \<bar>w\<bar>, nocc_dets := nocc_dets st1 + 1\<rparr>,
                         gen = \<lparr>floats = fl, ints = rs\<rparr>\<rparr>)"
    by blast
  have ac: "accumulate_energy Hd d a (sim_stats S) = Inr st1" using ac' by simp
  have r: "stochastic_round P a (floats (gen S)) = Inr (kept, fl)" using r' by simp
  have c: "case kept of
            None \<Rightarrow> map_of (walkers S) d \<noteq> None
              \<and> S' = S\<lparr>spawned_walkers := sp, walkers := AList.delete d (walkers S), sim_stats := st1,
                        gen := (gen S)\<lparr>floats := fl\<rparr>\<rparr>
          | Some w \<Rightarrow>
              (\<exists>sp' rs wk. spawning P Hd d w (nat \<lceil>\<bar>w\<bar>\<rceil>) (nat \<lceil>\<bar>w\<bar>\<rceil>) sp (ints (gen S)) = Inr (sp', rs)
                 \<and> death P Hd d w (walkers S) = Inr wk
                 \<and> S' = \<lparr>walkers = wk, spawned_walkers = sp',
                         sim_stats = st1\<lparr>nw := nw st1 + \<bar>w\<bar>, nocc_dets := nocc_dets st1 + 1\<rparr>,
                         gen = \<lparr>floats = fl, ints = rs\<rparr>\<rparr>)"
    using c' by (cases kept) simp_all
  show ?thesis
  proof (cases kept)
    case None
    then have "\<forall>sp2. process_det P Hd e (S\<lparr>spawned_walkers := sp2\<rparr>)
            = Inr (S'\<lparr>spawned_walkers := foldl (\<lambda>b (t, x). dict_add b t x) sp2 []\<rparr>)"
      using c ac r by (simp add: process_det_def e)
    then show ?thesis by blast
  next
    case (Some w)
    then obtain sp' rs wk where
      s: "spawning P Hd d w (nat \<lceil>\<bar>w\<bar>\<rceil>) (nat \<lceil>\<bar>w\<bar>\<rceil>) sp (ints (gen S)) = Inr (sp', rs)"
      and dth: "death P Hd d w (walkers S) = Inr wk"
      and S': "S' = \<lparr>walkers = wk, spawned_walkers = sp',
                         sim_stats = st1\<lparr>nw := nw st1 + \<bar>w\<bar>, nocc_dets := nocc_dets st1 + 1\<rparr>,
                         gen = \<lparr>floats = fl, ints = rs\<rparr>\<rparr>"
      using c by auto
    from spawning_buffer_independent [OF s] obtain targets where
      T: "\<forall>sp2. spawning P Hd d w (nat \<lceil>\<bar>w\<bar>\<rceil>) (nat \<lceil>\<bar>w\<bar>\<rceil>) sp2 (ints (gen S))
            = Inr (foldl (\<lambda>b t. dict_add b t (spawn_weight_of P Hd d w (nat \<lceil>\<bar>w\<bar>\<rceil>) t)) sp2 targets, rs)"
      by blast
    let ?incs = "map (\<lambda>t. (t, spawn_weight_of P Hd d w (nat \<lceil>\<bar>w\<bar>\<rceil>) t)) targets"
    have "\<forall>sp2. process_det P Hd e (S\<lparr>spawned_walkers := sp2\<rparr>)
            = Inr (S'\<lparr>spawned_walkers := foldl (\<lambda>b (t, x). dict_add b t x) sp2 ?incs\<rparr>)"
      using T ac r dth Some by (simp add: process_det_def e S' Let_def foldl_dict_add_map)
    then show ?thesis by blast
  qed
qed

lemma sweep_buffer_independent:
  "sweep P Hd es (S\<lparr>spawned_walkers := sp\<rparr>) = Inr S' \<Longrightarrow>
   \<exists>incs. \<forall>sp2. sweep P Hd es (S\<lparr>spawned_walkers := sp2\<rparr>)
            = Inr (S'\<lparr>spawned_walkers := foldl (\<lambda>b (t, x). dict_add b t x) sp2 incs\<rparr>)"
proof (induction es arbitrary: S sp)
  case Nil
  then have "\<forall>sp2. sweep P Hd [] (S\<lparr>spawned_walkers := sp2\<rparr>)
            = Inr (S'\<lparr>spawned_walkers := foldl (\<lambda>b (t, x). dict_add b t x) sp2 []\<rparr>)"
    by auto
  then show ?case by blast
next
  case (Cons e es)
  from Cons.prems obtain S1 where
    p: "process_det P Hd e (S\<lparr>spawned_walkers := sp\<rparr>) = Inr S1" and s: "sweep P Hd es S1 = Inr S'"
    by (auto simp: bindE_eq_Inr)
  from process_det_buffer_independent [OF p] obtain incs1 where
    i1: "\<forall>sp2. process_det P Hd e (S\<lparr>spawned_walkers := sp2\<rparr>)
            = Inr (S1\<lparr>spawned_walkers := foldl (\<lambda>b (t, x). dict_add b t x) sp2 incs1\<rparr>)"
    by blast
  have "sweep P Hd es (S1\<lparr>spawned_walkers := spawned_walkers S1\<rparr>) = Inr S'" using s by simp
  from Cons.IH [OF this] obtain incs2 where
    i2: "\<forall>sp2. sweep P Hd es (S1\<lparr>spawned_walkers := sp2\<rparr>)
            = Inr (S'\<lparr>spawned_walkers := foldl (\<lambda>b (t, x). dict_add b t x) sp2 incs2\<rparr>)"
    by blast
  have "\<forall>sp2. sweep P Hd (e # es) (S\<lparr>spawned_walkers := sp2\<rparr>)
            = Inr (S'\<lparr>spawned_walkers := foldl (\<lambda>b (t, x). dict_add b t x) sp2 (incs1 @ incs2)\<rparr>)"
    using i1 i2 by simp
  then show ?case by blast
qed

lemma process_det_error_independent:
  assumes "process_det P Hd e (S\<lparr>spawned_walkers := sp\<rparr>) = Inl err"
  shows "process_det P Hd e (S\<lparr>spawned_walkers := sp2\<rparr>) = Inl err"
proof (cases "process_det P Hd e (S\<lparr>spawned_walkers := sp2\<rparr>)")
  case (Inl err2)
  obtain d a where e: "e = (d, a)" by (cases e)
  show ?thesis
  proof (cases "accumulate_energy Hd d a (sim_stats S)")
    case a: (Inl x)
    then show ?thesis using assms Inl by (simp add: process_det_def e)
  next
    case a: (Inr st1)
    show ?thesis
    proof (cases "stochastic_round P a (floats (gen S))")
      case r: (Inl x)
      then show ?thesis using assms Inl a by (simp add: process_det_def e)
    next
      case r: (Inr x)
      obtain kept fl where x: "x = (kept, fl)" by (cases x)
      show ?thesis
      proof (cases kept)
        case None
        then show ?thesis using assms Inl a r x by (simp add: process_det_def e split: if_splits)
      next
        case (Some w)
        show ?thesis
        proof (cases "spawning P Hd d w (nat \<lceil>\<bar>w\<bar>\<rceil>) (nat \<lceil>\<bar>w\<bar>\<rceil>) sp (ints (gen S))")
          case s: (Inl y)
          from spawning_error_independent [OF s, of sp2]
          show ?thesis using assms a r x Some s by (simp add: process_det_def e Let_def)
        next
          case s: (Inr y)
          obtain sp' rs where y: "y = (sp', rs)" by (cases y)
          from spawning_buffer_independent [OF s [unfolded y]] obtain targets where
            "spawning P Hd d w (nat \<lceil>\<bar>w\<bar>\<rceil>) (nat \<lceil>\<bar>w\<bar>\<rceil>) sp2 (ints (gen S))
               = Inr (foldl (\<lambda>b t. dict_add b t (spawn_weight_of P Hd d w (nat \<lceil>\<bar>w\<bar>\<rceil>) t)) sp2 targets, rs)"
            by blast
          then show ?thesis
            using assms a r x Some s y
            by (cases "death P Hd d w (walkers S)") (simp_all add: process_det_def e Let_def)
        qed
      qed
    qed
  qed
next
  case (Inr S2)
  have "process_det P Hd e (S\<lparr>spawned_walkers := sp2\<rparr>) = Inr S2" using Inr by simp
  from process_det_buffer_independent [OF this] obtain incs where
    "\<forall>sp3. process_det P Hd e (S\<lparr>spawned_walkers := sp3\<rparr>)
        = Inr (S2\<lparr>spawned_walkers := foldl (\<lambda>b (t, x). dict_add b t x) sp3 incs\<rparr>)"
    by blast
  then show ?thesis using assms by simp
qed

lemma sweep_error_independent:
  "sweep P Hd es (S\<lparr>spawned_walkers := sp\<rparr>) = Inl err \<Longrightarrow>
   sweep P Hd es (S\<lparr>spawned_walkers := sp2\<rparr>) = Inl err"
proof (induction es arbitrary: S sp sp2)
  case Nil
  then show ?case by simp
next
  case (Cons e es)
  show ?case
  proof (cases "process_det P Hd e (S\<lparr>spawned_walkers := sp\<rparr>)")
    case (Inl x)
    then have "x = err" using Cons.prems by simp
    then show ?thesis using process_det_error_independent [OF Inl, of sp2] by simp
  next
    case (Inr S1)
    from process_det_buffer_independent [OF Inr] obtain incs where
      i: "\<forall>sp3. process_det P Hd e (S\<lparr>spawned_walkers := sp3\<rparr>)
          = Inr (S1\<lparr>spawned_walkers := foldl (\<lambda>b (t, x). dict_add b t x) sp3 incs\<rparr>)"
      by blast
    have "sweep P Hd es (S1\<lparr>spawned_walkers := spawned_walkers S1\<rparr>) = Inl err"
      using Cons.prems Inr by simp
    from Cons.IH [OF this] show ?thesis using i by simp
  qed
qed

lemma iteration_example2: "iteration params_example dense_example sim_example2 = Inr sim_after2"
  by (simp add: loop_defs sim_example2_def sim_after2_def)

lemma sweep_example2:
  "sweep params_example dense_example (walkers sim_example2) (sim_example2\<lparr>spawned_walkers := []\<rparr>)
   = Inr (sim_after2\<lparr>walkers := [(0, 1)]\<rparr>)"
  by (simp add: loop_defs sim_example2_def sim_after2_def)

lemma draw_target_dropWhile:
  "draw_target d rs =
     (case dropWhile (\<lambda>r. r = d) rs of [] \<Rightarrow> Inl DrawsExhausted | t # rest \<Rightarrow> Inr (t, rest))"
  by (induction rs) simp_all

lemma filter_dropWhile_neq:
  "filter (\<lambda>r. r \<noteq> d) rs = filter (\<lambda>r. r \<noteq> d) (dropWhile (\<lambda>r. r = d) rs)"
  by (induction rs) simp_all

lemma dropWhile_head: "dropWhile (\<lambda>r. r = d) rs = t # rest \<Longrightarrow> t \<noteq> d"
  using hd_dropWhile [of "\<lambda>r. r = d" rs] by auto

lemma set_tl_subset: "set (tl xs) \<subseteq> set xs"
  by (cases xs) auto

lemma set_skip_targets: "set (skip_targets d todo rs) \<subseteq> set rs"
proof (induction todo arbitrary: rs)
  case 0
  then show ?case by simp
next
  case (Suc todo)
  have "set (tl (dropWhile (\<lambda>r. r = d) rs)) \<subseteq> set (dropWhile (\<lambda>r. r = d) rs)"
    by (rule set_tl_subset)
  moreover have "set (dropWhile (\<lambda>r. r = d) rs) \<subseteq> set rs"
    using set_dropWhileD by fastforce
  ultimately have "set (tl (dropWhile (\<lambda>r. r = d) rs)) \<subseteq> set rs" by blast
  then show ?case using Suc.IH [of "tl (dropWhile (\<lambda>r. r = d) rs)"] by auto
qed

lemma spawning_exact:
  assumes "d < ndet Hd" and "2 \<le> ndet Hd" and "\<forall>r\<in>set rs. r < ndet Hd"
  shows "spawning P Hd d w n todo sp rs =
     (if length (filter (\<lambda>r. r \<noteq> d) rs) < todo then Inl DrawsExhausted
      else Inr (foldl (\<lambda>b (t, x). dict_add b t x) sp
                  (map (\<lambda>t. (t, - timestep P * full_h Hd d t * w / (1 / real (ndet Hd - 1) * real n)))
                     (take todo (filter (\<lambda>r. r \<noteq> d) rs))),
                skip_targets d todo rs))"
  using assms(3)
proof (induction todo arbitrary: sp rs)
  case 0
  then show ?case by simp
next
  case (Suc todo)
  show ?case
  proof (cases "dropWhile (\<lambda>r. r = d) rs")
    case Nil
    then have "filter (\<lambda>r. r \<noteq> d) rs = []" using filter_dropWhile_neq [of d rs] by simp
    then show ?thesis using assms(2) by (simp add: draw_target_dropWhile Nil)
  next
    case (Cons t rest)
    have td: "t \<noteq> d" using dropWhile_head [OF Cons] .
    have sub: "set (t # rest) \<subseteq> set rs"
      using set_dropWhileD [of _ "\<lambda>r. r = d" rs] Cons by auto
    then have t: "t < ndet Hd" and r: "\<forall>r\<in>set rest. r < ndet Hd" using Suc.prems by auto
    have f: "filter (\<lambda>r. r \<noteq> d) rs = t # filter (\<lambda>r. r \<noteq> d) rest"
      using filter_dropWhile_neq [of d rs] Cons td by simp
    have h: "h_at Hd d t = Inr (full_h Hd d t)" using t assms(1) by (simp add: h_at_def)
    show ?thesis
      using assms(2) f h Suc.IH [OF r]
      by (simp add: draw_target_dropWhile Cons Let_def)
  qed
qed

lemma add_weights_Nil [simp]: "add_weights m [] = m"
  by (rule ext) (simp add: add_weights_def)

lemma sum_other_keys:
  "k \<notin> fst ` set xs \<Longrightarrow> (\<Sum>(t, x)\<leftarrow>xs. if t = k then x else (0::real)) = 0"
  by (induction xs) auto

lemma add_weights_Cons:
  "add_weights m ((t, x) # xs) = add_weights (m(t \<mapsto> (case m t of None \<Rightarrow> x | Some v \<Rightarrow> v + x))) xs"
  by (rule ext) (auto simp: add_weights_def sum_other_keys split: option.splits)

lemma map_of_dict_add_fun:
  "map_of (dict_add d k w) = (map_of d)(k \<mapsto> (case map_of d k of None \<Rightarrow> w | Some v \<Rightarrow> v + w))"
  by (rule ext) (simp add: map_of_dict_add)

lemma map_of_foldl_dict_add:
  "map_of (foldl (\<lambda>b (t, x). dict_add b t x) sp xs) = add_weights (map_of sp) xs"
proof (induction xs arbitrary: sp)
  case Nil
  then show ?case by simp
next
  case (Cons p xs)
  obtain t x where p: "p = (t, x)" by (cases p)
  have "map_of (foldl (\<lambda>b (t, x). dict_add b t x) (dict_add sp t x) xs)
      = add_weights (map_of (dict_add sp t x)) xs"
    by (rule Cons.IH)
  also have "\<dots> = add_weights ((map_of sp)(t \<mapsto> (case map_of sp t of None \<Rightarrow> x | Some v \<Rightarrow> v + x))) xs"
    by (simp only: map_of_dict_add_fun)
  also have "\<dots> = add_weights (map_of sp) ((t, x) # xs)"
    by (simp only: add_weights_Cons)
  finally show ?case by (simp add: p)
qed

lemma annihilation_foldl: "annihilation sp w = foldl (\<lambda>b (t, x). dict_add b t x) w sp"
  by (induction sp arbitrary: w) auto

lemma update_middle:
  "d \<notin> fst ` set pre \<Longrightarrow> AList.update d v (pre @ (d, a) # es) = pre @ (d, v) # es"
  by (induction pre) auto

lemma delete_middle:
  "d \<notin> fst ` set pre \<Longrightarrow> d \<notin> fst ` set es \<Longrightarrow> AList.delete d (pre @ (d, a) # es) = pre @ es"
proof (induction pre)
  case Nil
  then show ?case by (simp add: delete_id)
next
  case (Cons p pre)
  then show ?case by auto
qed

lemma map_of_middle: "d \<notin> fst ` set pre \<Longrightarrow> map_of (pre @ (d, a) # es) d = Some a"
  by (induction pre) auto

lemma death_middle:
  assumes "d \<notin> fst ` set pre" and "d < ndet Hd"
  shows "death P Hd d w (pre @ (d, a) # es)
     = Inr (pre @ (d, a - timestep P * (full_h Hd d d - full_h Hd 0 0 - shift P) * w) # es)"
proof -
  have m: "map_of (pre @ (d, a) # es) d = Some a" using assms(1) by (rule map_of_middle)
  have u: "AList.update d v (pre @ (d, a) # es) = pre @ (d, v) # es" for v
    using assms(1) by (rule update_middle)
  have h: "h_at Hd d d = Inr (full_h Hd d d)" "h_at Hd 0 0 = Inr (full_h Hd 0 0)"
    using assms(2) by (simp_all add: h_at_def)
  show ?thesis unfolding death_def m u h by simp
qed

lemma sweep_sweep_spec:
  assumes N: "2 \<le> ndet Hd"
  shows "distinct (map fst (pre @ es)) \<Longrightarrow> \<forall>p\<in>set es. fst p < ndet Hd \<Longrightarrow> \<forall>r\<in>set rs. r < ndet Hd \<Longrightarrow>
     sweep P Hd es \<lparr>walkers = pre @ es, spawned_walkers = sp, sim_stats = st,
                    gen = \<lparr>floats = fl, ints = rs\<rparr>\<rparr>
     = bindE (sweep_spec P Hd es st fl rs) (\<lambda>(ws, sps, st', fl', rs').
         Inr \<lparr>walkers = pre @ ws, spawned_walkers = foldl (\<lambda>b (t, x). dict_add b t x) sp sps,
              sim_stats = st', gen = \<lparr>floats = fl', ints = rs'\<rparr>\<rparr>)"
proof (induction es arbitrary: pre sp st fl rs)
  case Nil
  then show ?case by simp
next
  case (Cons p es)
  obtain d a where p: "p = (d, a)" by (cases p)
  let ?S = "\<lparr>walkers = pre @ (d, a) # es, spawned_walkers = sp, sim_stats = st,
             gen = \<lparr>floats = fl, ints = rs\<rparr>\<rparr>"
  have dpre: "d \<notin> fst ` set pre" and des: "d \<notin> fst ` set es"
    and dist: "distinct (map fst (pre @ es))"
    using Cons.prems(1) by (auto simp: p)
  have dN: "d < ndet Hd" and esN: "\<forall>p\<in>set es. fst p < ndet Hd"
    using Cons.prems(2) by (auto simp: p)
  show ?case
  proof (cases "accumulate_energy Hd d a st")
    case (Inl e)
    then show ?thesis by (simp add: p process_det_def)
  next
    case st1: (Inr st1)
    show ?thesis
    proof (cases "stochastic_round P a fl")
      case (Inl e)
      then show ?thesis using st1 by (simp add: p process_det_def)
    next
      case (Inr r)
      obtain kept fl' where r: "r = (kept, fl')" by (cases r)
      show ?thesis
      proof (cases kept)
        case None
        have pd: "process_det P Hd (d, a) ?S
            = Inr \<lparr>walkers = pre @ es, spawned_walkers = sp, sim_stats = st1,
                   gen = \<lparr>floats = fl', ints = rs\<rparr>\<rparr>"
        proof -
          have m: "map_of (pre @ (d, a) # es) d = Some a" using dpre by (rule map_of_middle)
          have dl: "AList.delete d (pre @ (d, a) # es) = pre @ es"
            using dpre des by (rule delete_middle)
          show ?thesis using st1 Inr r None
            by (simp add: process_det_def m dl del: map_of_append)
        qed
        show ?thesis
          using st1 Inr r None pd Cons.IH [OF dist esN Cons.prems(3), of sp st1 fl']
          by (simp add: p)
      next
        case (Some w)
        let ?n = "nat \<lceil>\<bar>w\<bar>\<rceil>"
        let ?acc = "filter (\<lambda>r. r \<noteq> d) rs"
        let ?sps = "map (\<lambda>t. (t, - timestep P * full_h Hd d t * w / (1 / real (ndet Hd - 1) * real ?n)))
                      (take ?n ?acc)"
        let ?a' = "a - timestep P * (full_h Hd d d - full_h Hd 0 0 - shift P) * w"
        let ?st2 = "st1\<lparr>nw := nw st1 + \<bar>w\<bar>, nocc_dets := nocc_dets st1 + 1\<rparr>"
        note sx = spawning_exact [OF dN N Cons.prems(3), of P w ?n ?n sp]
        show ?thesis
        proof (cases "length ?acc < ?n")
          case True
          then show ?thesis using st1 Inr r Some sx
            by (simp add: p process_det_def Let_def)
        next
          case False
          have pd: "process_det P Hd (d, a) ?S
              = Inr \<lparr>walkers = (pre @ [(d, ?a')]) @ es,
                     spawned_walkers = foldl (\<lambda>b (t, x). dict_add b t x) sp ?sps,
                     sim_stats = ?st2,
                     gen = \<lparr>floats = fl', ints = skip_targets d ?n rs\<rparr>\<rparr>"
            using st1 Inr r Some sx False death_middle [OF dpre dN, of P w a es]
            by (simp add: process_det_def Let_def)
          have dist': "distinct (map fst ((pre @ [(d, ?a')]) @ es))"
            using Cons.prems(1) by (auto simp: p)
          have rs': "\<forall>r\<in>set (skip_targets d ?n rs). r < ndet Hd"
            using set_skip_targets [of d ?n rs] Cons.prems(3) by blast
          note IH = Cons.IH [OF dist' esN rs', of "foldl (\<lambda>b (t, x). dict_add b t x) sp ?sps" ?st2 fl']
          show ?thesis
          proof (cases "sweep_spec P Hd es ?st2 fl' (skip_targets d ?n rs)")
            case (Inl e)
            then show ?thesis using st1 Inr r Some False pd IH
              by (simp add: p Let_def)
          next
            case res: (Inr res)
            obtain ws sps st' fl'' rs'' where res': "res = (ws, sps, st', fl'', rs'')"
              by (cases res)
            show ?thesis using st1 Inr r Some False pd IH res res'
              by (simp add: p Let_def)
          qed
        qed
      qed
    qed
  qed
qed

lemma sweep_spec_example2:
  "sweep_spec params_example dense_example (walkers sim_example2)
     ((sim_stats sim_example2)\<lparr>nw := 0, ref_weight := 0, nocc_dets := 0\<rparr>)
     (floats (gen sim_example2)) (ints (gen sim_example2))
   = Inr ([(0, 1)], [(1, - 1 / 100)],
          \<lparr>cycle_en_num = 1 / 16, cycle_en_denom = 1, ref_weight = 1, nw = 1, nocc_dets = 1\<rparr>,
          [], [])"
  by (simp add: loop_defs sim_example2_def)

lemma distinct_foldl_pairs:
  "distinct (map fst sp) \<Longrightarrow> distinct (map fst (foldl (\<lambda>b (t, x). dict_add b t x) sp xs))"
  by (induction xs arbitrary: sp) (auto simp: distinct_dict_add)

lemma annihilation_add_weights:
  "map_of (annihilation (foldl (\<lambda>b (t, x). dict_add b t x) [] sps) ws) = add_weights (map_of ws) sps"
proof (rule ext)
  fix k
  let ?b = "foldl (\<lambda>b (t, x). dict_add b t x) [] sps"
  have d: "distinct (map fst ?b)" by (rule distinct_foldl_pairs) simp
  have b: "map_of ?b k = add_weights Map.empty sps k"
    using map_of_foldl_dict_add [of "[]" sps] by simp
  show "map_of (annihilation ?b ws) k = add_weights (map_of ws) sps k"
    unfolding map_of_annihilation [OF d] b
    by (simp add: add_weights_def split: option.splits)
qed

text \<open>
  C6: an iteration does what the sweep computed from the snapshot does, followed by one
  merge. Every item of the snapshot is processed (energy accumulation, rounding, spawn
  attempts, death step) from the weight the map held for it at the start of the
  iteration; the spawned weights of the whole sweep are then added to the map, to the
  entry of their target or as a new entry, and the buffer holds their sums. The two
  sides raise the same error when one does. The hypotheses are that the keys of the map
  are distinct and, with the \<open>randint\<close> results, inside a determinant space of at least
  two determinants.
\<close>

theorem spawns_merged_after_sweep:
  assumes "distinct (map fst (walkers S))" and "\<forall>p\<in>set (walkers S). fst p < ndet Hd"
    and "2 \<le> ndet Hd" and "\<forall>r\<in>set (ints (gen S)). r < ndet Hd"
  shows "map_sum id (\<lambda>S'. (map_of (walkers S'), map_of (spawned_walkers S'), sim_stats S', gen S'))
           (iteration P Hd S)
       = map_sum id (\<lambda>(ws, sps, st, fl, rs).
             (add_weights (map_of ws) sps, add_weights Map.empty sps, st, \<lparr>floats = fl, ints = rs\<rparr>))
           (sweep_spec P Hd (walkers S)
              ((sim_stats S)\<lparr>nw := 0, ref_weight := 0, nocc_dets := 0\<rparr>)
              (floats (gen S)) (ints (gen S)))"
proof -
  let ?st = "(sim_stats S)\<lparr>nw := 0, ref_weight := 0, nocc_dets := 0\<rparr>"
  let ?S0 = "S\<lparr>spawned_walkers := [], sim_stats := ?st\<rparr>"
  have S0: "?S0 = \<lparr>walkers = [] @ walkers S, spawned_walkers = [], sim_stats = ?st,
                    gen = \<lparr>floats = floats (gen S), ints = ints (gen S)\<rparr>\<rparr>"
    by simp
  have d: "distinct (map fst ([] @ walkers S))" using assms(1) by simp
  have sw: "sweep P Hd (walkers S) ?S0
     = bindE (sweep_spec P Hd (walkers S) ?st (floats (gen S)) (ints (gen S)))
         (\<lambda>(ws, sps, st', fl', rs').
            Inr \<lparr>walkers = [] @ ws, spawned_walkers = foldl (\<lambda>b (t, x). dict_add b t x) [] sps,
                 sim_stats = st', gen = \<lparr>floats = fl', ints = rs'\<rparr>\<rparr>)"
    unfolding S0 by (rule sweep_sweep_spec [OF assms(3) d assms(2) assms(4)])
  show ?thesis
  proof (cases "sweep_spec P Hd (walkers S) ?st (floats (gen S)) (ints (gen S))")
    case (Inl e)
    then show ?thesis using sw by (simp add: iteration_def)
  next
    case (Inr res)
    obtain ws sps st' fl' rs' where res: "res = (ws, sps, st', fl', rs')" by (cases res)
    have b: "map_of (foldl (\<lambda>b (t, x). dict_add b t x) [] sps) = add_weights Map.empty sps"
      using map_of_foldl_dict_add [of "[]" sps] by simp
    note w = annihilation_add_weights [of sps ws]
    show ?thesis using sw Inr res b w by (simp add: iteration_def)
  qed
qed

theorem spawns_merged_after_sweep_witness:
  "distinct (map fst (walkers sim_example2)) \<and> 2 \<le> ndet dense_example
   \<and> map_sum id (\<lambda>S'. (map_of (walkers S'), map_of (spawned_walkers S'), sim_stats S', gen S'))
       (iteration params_example dense_example sim_example2)
     = Inr (add_weights (map_of [(0, 1)]) [(1, - 1 / 100)], add_weights Map.empty [(1, - 1 / 100)],
            \<lparr>cycle_en_num = 1 / 16, cycle_en_denom = 1, ref_weight = 1, nw = 1, nocc_dets = 1\<rparr>,
            \<lparr>floats = [], ints = []\<rparr>)
   \<and> add_weights (map_of [(0, 1)]) [(1, - 1 / 100)] 1 = Some (- 1 / 100)
   \<and> add_weights (map_of [(0, 1)]) [(1, - 1 / 100)] 0 = Some 1"
proof -
  have h: "distinct (map fst (walkers sim_example2))"
    "\<forall>p\<in>set (walkers sim_example2). fst p < ndet dense_example"
    "2 \<le> ndet dense_example"
    "\<forall>r\<in>set (ints (gen sim_example2)). r < ndet dense_example"
    by (simp_all add: sim_example2_def dense_example_def)
  have v: "add_weights (map_of [(0, 1)]) [(1, - 1 / 100)] 1 = Some (- 1 / 100)"
    "add_weights (map_of [(0, 1)]) [(1, - 1 / 100)] 0 = Some 1"
    by (simp_all add: add_weights_def)
  show ?thesis
    using spawns_merged_after_sweep [OF h, of params_example] h(1,3) v
    by (simp add: sweep_spec_example2)
qed

text \<open>
  C7, as the code has it: nothing removes an entry when its weight becomes zero. An
  entry of weight exactly zero is removed by the stochastic rounding of the next sweep
  (its \<open>chi_fraction\<close> is 0 and no draw of \<open>random()\<close> is below 0), so an entry that is
  zero at the start of an iteration ends the iteration with exactly the weight spawned
  onto its determinant in that iteration, and is absent when nothing was spawned onto it.
\<close>

theorem zero_weight_entries:
  assumes "iteration P Hd S = Inr S'" and "distinct (map fst (walkers S))"
    and "(d, 0) \<in> set (walkers S)" and "0 < det_thresh P"
    and "\<forall>u\<in>set (floats (gen S)). 0 \<le> u"
  shows "map_of (walkers S') d = map_of (spawned_walkers S') d"
proof -
  let ?S0 = "S\<lparr>spawned_walkers := [],
                sim_stats := (sim_stats S)\<lparr>nw := 0, ref_weight := 0, nocc_dets := 0\<rparr>\<rparr>"
  from iteration_cases [OF assms(1)] obtain S1 where
    s: "sweep P Hd (walkers S) ?S0 = Inr S1"
    and e: "S' = S1\<lparr>walkers := annihilation (spawned_walkers S1) (walkers S1)\<rparr>"
    and dd: "distinct (map fst (spawned_walkers S1))"
    by blast
  have fl: "\<forall>u\<in>set (floats (gen ?S0)). 0 \<le> u" using assms(5) by simp
  have "map_of (walkers S1) d = None"
    using sweep_zero_deleted [OF s assms(2,3,4) fl] .
  then show ?thesis
    using map_of_annihilation [OF dd, of "walkers S1" d] e by (simp split: option.splits)
qed

theorem zero_weight_entries_witness:
  "iteration params_example dense_example sim_example2 = Inr sim_after2
   \<and> distinct (map fst (walkers sim_example2))
   \<and> (2, 0) \<in> set (walkers sim_example2)
   \<and> 0 < det_thresh params_example
   \<and> map_of (walkers sim_after2) 2 = None
   \<and> map_of (spawned_walkers sim_after2) 2 = None"
proof -
  have h: "distinct (map fst (walkers sim_example2))" "(2, 0) \<in> set (walkers sim_example2)"
    "0 < det_thresh params_example" "\<forall>u\<in>set (floats (gen sim_example2)). 0 \<le> u"
    by (simp_all add: sim_example2_def params_example_def)
  have "map_of (spawned_walkers sim_after2) 2 = None" by (simp add: sim_after2_def)
  then show ?thesis
    using zero_weight_entries [OF iteration_example2 h] iteration_example2 h by simp
qed

section \<open>The determinant functions leave their arguments as they are\<close>

lemma store_kept_refl [simp]: "store_kept s s"
  by (simp add: store_kept_def)

lemma store_kept_length: "store_kept s s' \<Longrightarrow> length s \<le> length s'"
proof -
  assume "store_kept s s'"
  then have "length (take (length s) s') = length s"
    unfolding store_kept_def by (rule arg_cong)
  then show ?thesis by simp
qed

lemma store_kept_nth: "store_kept s s' \<Longrightarrow> a < length s \<Longrightarrow> s' ! a = s ! a"
proof -
  assume k: "store_kept s s'" and a: "a < length s"
  have "s ! a = take (length s) s' ! a" using k by (simp only: store_kept_def)
  also have "\<dots> = s' ! a" using a by simp
  finally show ?thesis by simp
qed

lemma store_kept_trans: "store_kept s s1 \<Longrightarrow> store_kept s1 s2 \<Longrightarrow> store_kept s s2"
proof -
  assume a: "store_kept s s1" and b: "store_kept s1 s2"
  have "take (length s) s2 = take (length s) (take (length s1) s2)"
    using store_kept_length [OF a] by (simp add: min_def)
  also have "\<dots> = take (length s) s1" using b by (simp add: store_kept_def)
  also have "\<dots> = s" using a by (simp add: store_kept_def)
  finally show ?thesis by (simp add: store_kept_def)
qed

lemma store_kept_append [simp]: "store_kept s (s @ t)"
  by (simp add: store_kept_def)

lemma store_kept_update: "store_kept s0 s \<Longrightarrow> length s0 \<le> c \<Longrightarrow> store_kept s0 (s[c := xs])"
  by (simp add: store_kept_def take_update_cancel)

lemma store_set_kept:
  "store_kept s0 s \<Longrightarrow> length s0 \<le> c \<Longrightarrow> store_kept s0 (snd (store_set s c i v))"
  by (auto simp: store_set_def store_kept_update split: sum.splits)

lemma store_set_pure:
  "c < length s \<Longrightarrow>
   store_set s c i v = (case py_set (s ! c) i v of Inl e \<Rightarrow> (Inl e, s) | Inr xs \<Rightarrow> (Inr (), s[c := xs]))"
  by (simp add: store_set_def)

lemma exchange_loop_h_kept:
  "store_kept s0 s \<Longrightarrow> length s0 \<le> c \<Longrightarrow>
   store_kept s0 (snd (exchange_loop_h s c ind up perm))"
proof (induction s c ind up perm rule: exchange_loop_h.induct)
  case (1 s c ind up perm)
  show ?case
  proof (cases "s ! c = sort (s ! c)")
    case True
    then show ?thesis using "1.prems" by (subst exchange_loop_h.simps) simp
  next
    case ns: False
    show ?thesis
    proof (cases "py_get (s ! c) (ind + step_of up)")
      case (Inl e)
      then show ?thesis using "1.prems" ns by (subst exchange_loop_h.simps) simp
    next
      case g1: (Inr tmp)
      show ?thesis
      proof (cases "py_get (s ! c) ind")
        case (Inl e)
        then show ?thesis using "1.prems" ns g1 by (subst exchange_loop_h.simps) simp
      next
        case g2: (Inr cur)
        obtain x s1 where w1: "store_set s c (ind + step_of up) cur = (x, s1)"
          by (cases "store_set s c (ind + step_of up) cur")
        have k1: "store_kept s0 s1" using store_set_kept [OF "1.prems", of "ind + step_of up" cur] w1 by simp
        show ?thesis
        proof (cases x)
          case (Inl e)
          then show ?thesis using ns g1 g2 w1 k1 by (subst exchange_loop_h.simps) simp
        next
          case x: (Inr u)
          obtain x' s2 where w2: "store_set s1 c ind tmp = (x', s2)"
            by (cases "store_set s1 c ind tmp")
          have k2: "store_kept s0 s2" using store_set_kept [OF k1 "1.prems"(2), of ind tmp] w2 by simp
          show ?thesis
          proof (cases x')
            case (Inl e)
            then show ?thesis using ns g1 g2 w1 x w2 k2 by (subst exchange_loop_h.simps) simp
          next
            case x': (Inr u')
            have "store_kept s0 (snd (exchange_loop_h s2 c (ind + step_of up) up (perm + 1)))"
              using "1.IH" [OF ns g1 g2 w1 [symmetric, unfolded x] refl w2 [symmetric, unfolded x'] refl k2 "1.prems"(2)] .
            then show ?thesis using ns g1 g2 w1 x w2 x' by (subst exchange_loop_h.simps) simp
          qed
        qed
      qed
    qed
  qed
qed

lemma exchange_loop_h_pure:
  "c < length s \<Longrightarrow> fst (exchange_loop_h s c ind up perm) = exchange_loop (s ! c) ind up perm"
proof (induction s c ind up perm rule: exchange_loop_h.induct)
  case (1 s c ind up perm)
  show ?case
  proof (cases "s ! c = sort (s ! c)")
    case True
    then show ?thesis
      by (subst exchange_loop_h.simps, subst exchange_loop.simps) simp
  next
    case ns: False
    show ?thesis
    proof (cases "py_get (s ! c) (ind + step_of up)")
      case (Inl e)
      then show ?thesis using ns
        by (subst exchange_loop_h.simps, subst exchange_loop.simps) simp
    next
      case g1: (Inr tmp)
      show ?thesis
      proof (cases "py_get (s ! c) ind")
        case (Inl e)
        then show ?thesis using ns g1
          by (subst exchange_loop_h.simps, subst exchange_loop.simps) simp
      next
        case g2: (Inr cur)
        show ?thesis
        proof (cases "py_set (s ! c) (ind + step_of up) cur")
          case (Inl e)
          then show ?thesis using ns g1 g2 "1.prems"
            by (subst exchange_loop_h.simps, subst exchange_loop.simps) (simp add: store_set_pure)
        next
          case p1: (Inr d1)
          have w1: "store_set s c (ind + step_of up) cur = (Inr (), s[c := d1])"
            using p1 "1.prems" by (simp add: store_set_pure)
          have c1: "c < length (s[c := d1])" "(s[c := d1]) ! c = d1" using "1.prems" by simp_all
          show ?thesis
          proof (cases "py_set d1 ind tmp")
            case (Inl e)
            then show ?thesis using ns g1 g2 p1 w1 c1
              by (subst exchange_loop_h.simps, subst exchange_loop.simps) (simp add: store_set_pure)
          next
            case p2: (Inr d2)
            have w2: "store_set (s[c := d1]) c ind tmp = (Inr (), s[c := d2])"
              using p2 c1 by (simp add: store_set_pure)
            have c2: "c < length (s[c := d2])" "(s[c := d2]) ! c = d2" using "1.prems" by simp_all
            have "fst (exchange_loop_h (s[c := d2]) c (ind + step_of up) up (perm + 1))
                = exchange_loop d2 (ind + step_of up) up (perm + 1)"
              using "1.IH" [OF ns g1 g2 w1 [symmetric] refl w2 [symmetric] refl c2(1)] c2(2) by simp
            then show ?thesis using ns g1 g2 p1 p2 w1 w2
              by (subst exchange_loop_h.simps, subst exchange_loop.simps) simp
          qed
        qed
      qed
    qed
  qed
qed

lemma bindH_Inr [simp]: "bindH (Inr x, s) f = f x s"
  by (simp add: bindH_def)

lemma bindH_Inl [simp]: "bindH (Inl e, s) f = (Inl e, s)"
  by (simp add: bindH_def)

lemma alloc_simp [simp]: "alloc s xs = (length s, s @ [xs])"
  by (simp add: alloc_def)

lemma elec_exchange_ops_h_kept: "store_kept s (snd (elec_exchange_ops_h s det ind))"
proof -
  have "store_kept s (snd (exchange_loop_h (s @ [s ! det]) (length s) ind up 0))" for up
    by (rule exchange_loop_h_kept) simp_all
  then show ?thesis by (simp add: elec_exchange_ops_h_def split: sum.splits)
qed

lemma elec_exchange_ops_h_pure:
  "det < length s \<Longrightarrow> fst (elec_exchange_ops_h s det ind) = elec_exchange_ops (s ! det) ind"
proof -
  assume d: "det < length s"
  have "fst (exchange_loop_h (s @ [s ! det]) (length s) ind up 0) = exchange_loop (s ! det) ind up 0" for up
    using exchange_loop_h_pure [of "length s" "s @ [s ! det]" ind up 0] by simp
  then show ?thesis
    using d by (simp add: elec_exchange_ops_h_def elec_exchange_ops_def nth_append split: sum.splits)
qed

lemma elec_exchange_ops_h_split:
  "det < length s \<Longrightarrow>
   \<exists>s'. elec_exchange_ops_h s det ind = (elec_exchange_ops (s ! det) ind, s') \<and> store_kept s s'"
  using elec_exchange_ops_h_pure [of det s ind] elec_exchange_ops_h_kept [of s det ind]
  by (cases "elec_exchange_ops_h s det ind") auto

lemma relabel_loop_h_both:
  "store_kept s0 s \<Longrightarrow> length s0 \<le> c \<Longrightarrow> c < length s \<Longrightarrow>
   store_kept s0 (snd (relabel_loop_h s c ps perm))
   \<and> fst (relabel_loop_h s c ps perm) = relabel_loop (s ! c) ps perm"
proof (induction ps arbitrary: s c perm)
  case Nil
  then show ?case by simp
next
  case (Cons p ps)
  obtain f t where p: "p = (f, t)" by (cases p)
  show ?case
  proof (cases "py_index (s ! c) f")
    case (Inl e)
    then show ?thesis using Cons.prems by (simp add: p)
  next
    case i: (Inr ind)
    show ?thesis
    proof (cases "py_set (s ! c) (int ind) t")
      case (Inl e)
      then show ?thesis using Cons.prems i by (simp add: p store_set_pure)
    next
      case ps1: (Inr dc)
      let ?s1 = "s[c := dc]"
      have w: "store_set s c (int ind) t = (Inr (), ?s1)"
        using ps1 Cons.prems(3) by (simp add: store_set_pure)
      have k1: "store_kept s0 ?s1" using Cons.prems(1,2) by (rule store_kept_update)
      have c1: "c < length ?s1" "?s1 ! c = dc" using Cons.prems(3) by simp_all
      from elec_exchange_ops_h_split [OF c1(1), of "int ind"] obtain s2 where
        e: "elec_exchange_ops_h ?s1 c (int ind) = (elec_exchange_ops dc (int ind), s2)"
        and k2: "store_kept ?s1 s2"
        using c1(2) by auto
      have k02: "store_kept s0 s2" using k1 k2 by (rule store_kept_trans)
      show ?thesis
      proof (cases "elec_exchange_ops dc (int ind)")
        case (Inl err)
        then show ?thesis using i w e k02 ps1 by (simp add: p)
      next
        case k: (Inr n)
        have s2c: "s2 ! c = dc" using store_kept_nth [OF k2 c1(1)] c1(2) by simp
        let ?s3 = "s2 @ [sort dc]"
        have k3: "store_kept s0 ?s3" using k02 store_kept_append store_kept_trans by blast
        have l3: "length s0 \<le> length s2" using store_kept_length [OF k02] .
        have "store_kept s0 (snd (relabel_loop_h ?s3 (length s2) ps (perm + n)))
            \<and> fst (relabel_loop_h ?s3 (length s2) ps (perm + n)) = relabel_loop (?s3 ! length s2) ps (perm + n)"
          by (rule Cons.IH [OF k3 l3]) simp
        then show ?thesis using i w e ps1 k s2c by (simp add: p)
      qed
    qed
  qed
qed

lemma calc_excit_mat_parity_h_both:
  assumes "det < length s" and "excited_det < length s"
  shows "store_kept s (snd (calc_excit_mat_parity_h s det excited_det))
       \<and> fst (calc_excit_mat_parity_h s det excited_det) = calc_excit_mat_parity (s ! det) (s ! excited_det)"
proof -
  let ?fo = "map snd (filter (\<lambda>(from_ind, from_orb). from_orb \<notin> set (s ! excited_det)) (enumerate_list (s ! det)))"
  let ?to = "map snd (filter (\<lambda>(to_ind, to_orb). to_orb \<notin> set (s ! det)) (enumerate_list (s ! excited_det)))"
  have r: "store_kept s (snd (relabel_loop_h (s @ [s ! det]) (length s) (zip ?fo ?to) 0))
      \<and> fst (relabel_loop_h (s @ [s ! det]) (length s) (zip ?fo ?to) 0)
          = relabel_loop ((s @ [s ! det]) ! length s) (zip ?fo ?to) 0"
    by (rule relabel_loop_h_both) simp_all
  obtain s2 where x: "relabel_loop_h (s @ [s ! det]) (length s) (zip ?fo ?to) 0
      = (relabel_loop (s ! det) (zip ?fo ?to) 0, s2)" and k: "store_kept s s2"
    using r by (cases "relabel_loop_h (s @ [s ! det]) (length s) (zip ?fo ?to) 0") auto
  show ?thesis
  proof (cases "relabel_loop (s ! det) (zip ?fo ?to) 0")
    case (Inl e)
    then show ?thesis using k x
      by (simp add: calc_excit_mat_parity_h_def calc_excit_mat_parity_def Let_def)
  next
    case (Inr perm)
    then show ?thesis using k x
      by (simp add: calc_excit_mat_parity_h_def calc_excit_mat_parity_def Let_def)
  qed
qed

lemma elec_exchange_ops_h_eq:
  "det < length s \<Longrightarrow>
   elec_exchange_ops_h s det ind = (elec_exchange_ops (s ! det) ind, exchange_store s det ind)"
  using elec_exchange_ops_h_pure [of det s ind]
  by (cases "elec_exchange_ops_h s det ind") (simp add: exchange_store_def)

lemma exchange_store_kept: "store_kept s (exchange_store s det ind)"
  by (simp add: exchange_store_def elec_exchange_ops_h_kept)

lemma exchange_store_nth: "a < length s \<Longrightarrow> exchange_store s det ind ! a = s ! a"
  using store_kept_nth [OF exchange_store_kept] by simp

lemma store_kept_step: "store_kept (s @ t) s' \<Longrightarrow> store_kept s s'"
  using store_kept_trans [of s "s @ t" s'] by simp

lemma store_kept_snoc: "store_kept s s' \<Longrightarrow> store_kept s (s' @ t)"
  using store_kept_trans [of s s' "s' @ t"] by simp

lemma excit_gen_h_both:
  assumes "det < length s"
  shows "store_kept s (snd (excit_gen_h H s det D))
       \<and> map_sum id (\<lambda>(a, em, par, pr). (snd (excit_gen_h H s det D) ! a, em, par, pr))
            (fst (excit_gen_h H s det D))
          = excit_gen H (s ! det) D"
proof -
  let ?i = "int (rnd_ind D)"
  show ?thesis
  proof (cases "length (s ! det) = 0")
    case True
    then show ?thesis using assms
      by (simp add: excit_gen_h_def excit_gen_def Let_def nth_append)
  next
    case ok1: False
    show ?thesis
    proof (cases "py_get (s ! det) ?i")
      case (Inl e)
      then show ?thesis using assms ok1
        by (simp add: excit_gen_h_def excit_gen_def Let_def nth_append)
    next
      case g: (Inr orb_from)
      show ?thesis
      proof (cases "2 * nbasis H \<le> 0")
      case True
      then show ?thesis using assms ok1 g
        by (simp add: excit_gen_h_def excit_gen_def Let_def nth_append)
      next
      case ok2: False
      note ok = ok1 ok2
      show ?thesis
      proof (cases "first_free (s ! det) (rnd_to D)")
        case (Inl e)
        then show ?thesis using assms ok g
          by (simp add: excit_gen_h_def excit_gen_def Let_def nth_append)
      next
        case ff: (Inr orb_to)
        show ?thesis
        proof (cases "py_set (s ! det) ?i orb_to")
          case (Inl e)
          then show ?thesis using assms ok g ff
            by (simp add: excit_gen_h_def excit_gen_def Let_def nth_append store_set_pure)
        next
          case ps: (Inr ed1)
          let ?s2 = "s @ [ed1]"
          let ?s3 = "exchange_store ?s2 (length s) ?i"
          have e1: "elec_exchange_ops_h ?s2 (length s) ?i = (elec_exchange_ops ed1 ?i, ?s3)"
            using elec_exchange_ops_h_eq [of "length s" ?s2 ?i] by simp
          have k3: "store_kept s ?s3"
            using exchange_store_kept [of ?s2 "length s" ?i] by (rule store_kept_step)
          have n3: "?s3 ! length s = ed1"
            using exchange_store_nth [of "length s" ?s2 "length s" ?i] by simp
          have pre: "excit_gen_h H s det D =
              bindH (elec_exchange_ops ed1 ?i, ?s3) (\<lambda>perm s3.
                (case alloc s3 (sort (s3 ! length s)) of (excited_det2, s4) \<Rightarrow>
                   if rnd_single D < p_single H then
                     (if nelec H * (2 * nbasis H - nelec H) = 0 then (Inl ZeroDivisionError, s4)
                      else (Inr (excited_det2, [[orb_from], [orb_to]], (- 1) ^ perm,
                              Finite (p_single H / real_of_int (nelec H * (2 * nbasis H - nelec H)))),
                            s4))
                   else
                     bindH (second_draw (s4 ! excited_det2) orb_from orb_to (rnd_second D), s4)
                       (\<lambda>(ind2, orb_from_2, orb_to_2) s4.
                     bindH (store_set s4 excited_det2 (int ind2) orb_to_2) (\<lambda>u s5.
                     bindH (elec_exchange_ops_h s5 excited_det2 (int ind2)) (\<lambda>perm2 s6.
                     (let denom = comb2 (2 * nbasis H - nelec H) * comb2 (nelec H);
                          prob = (if denom = 0 then NonFinite else Finite ((1 - p_single H) / denom))
                      in case alloc s6 (sort (s6 ! excited_det2)) of (excited_det3, s7) \<Rightarrow>
                           (Inr (excited_det3, [[orb_from, orb_from_2], [orb_to, orb_to_2]],
                                 (- 1) ^ (perm + perm2), prob), s7)))))))"
            using assms ok g ff ps e1
            by (simp add: excit_gen_h_def Let_def nth_append store_set_pure)
          have pure: "excit_gen H (s ! det) D =
              bindE (elec_exchange_ops ed1 ?i) (\<lambda>perm.
                (let ed2 = sort ed1
                 in if rnd_single D < p_single H then
                      (if nelec H * (2 * nbasis H - nelec H) = 0 then Inl ZeroDivisionError
                       else Inr (ed2, [[orb_from], [orb_to]], (- 1) ^ perm,
                              Finite (p_single H / real_of_int (nelec H * (2 * nbasis H - nelec H)))))
                    else
                      bindE (second_draw ed2 orb_from orb_to (rnd_second D)) (\<lambda>(ind2, orb_from_2, orb_to_2).
                      bindE (py_set ed2 (int ind2) orb_to_2) (\<lambda>ed3.
                      bindE (elec_exchange_ops ed3 (int ind2)) (\<lambda>perm2.
                      (let denom = comb2 (2 * nbasis H - nelec H) * comb2 (nelec H);
                           prob = (if denom = 0 then NonFinite else Finite ((1 - p_single H) / denom))
                       in Inr (sort ed3, [[orb_from, orb_from_2], [orb_to, orb_to_2]],
                               (- 1) ^ (perm + perm2), prob)))))))"
            using ok g ff ps by (simp add: excit_gen_def Let_def)
          show ?thesis
          proof (cases "elec_exchange_ops ed1 ?i")
            case (Inl e)
            then show ?thesis using k3 by (simp add: pre pure)
          next
            case p1: (Inr perm)
            let ?s4 = "?s3 @ [sort ed1]"
            have k4: "store_kept s ?s4" using k3 by (rule store_kept_snoc)
            show ?thesis
            proof (cases "rnd_single D < p_single H")
              case True
              then show ?thesis using p1 k4 n3 by (simp add: pre pure)
            next
              case dbl: False
              show ?thesis
              proof (cases "second_draw (sort ed1) orb_from orb_to (rnd_second D)")
                case (Inl e)
                then show ?thesis using p1 k4 n3 dbl by (simp add: pre pure)
              next
                case sd: (Inr x)
                obtain i2 f2 t2 where x: "x = (i2, f2, t2)" by (cases x)
                show ?thesis
                proof (cases "py_set (sort ed1) (int i2) t2")
                  case (Inl e)
                  then show ?thesis using p1 k4 n3 dbl sd x
                    by (simp add: pre pure store_set_pure)
                next
                  case ps2: (Inr ed3)
                  let ?s5 = "?s3 @ [ed3]"
                  let ?s6 = "exchange_store ?s5 (length ?s3) (int i2)"
                  have e2: "elec_exchange_ops_h ?s5 (length ?s3) (int i2)
                      = (elec_exchange_ops ed3 (int i2), ?s6)"
                    using elec_exchange_ops_h_eq [of "length ?s3" ?s5 "int i2"] by simp
                  have k6: "store_kept s ?s6"
                    using store_kept_trans [OF k3 store_kept_step [OF exchange_store_kept [of ?s5 "length ?s3" "int i2"]]] .
                  have n6: "?s6 ! length ?s3 = ed3"
                    using exchange_store_nth [of "length ?s3" ?s5 "length ?s3" "int i2"] by simp
                  have k7: "store_kept s (?s6 @ [t])" for t using k6 by (rule store_kept_snoc)
                  show ?thesis
                  proof (cases "elec_exchange_ops ed3 (int i2)")
                    case (Inl e)
                    then show ?thesis using p1 n3 dbl sd x ps2 e2 k6
                      by (simp add: pre pure store_set_pure)
                  next
                    case p2: (Inr perm2)
                    then show ?thesis using p1 n3 dbl sd x ps2 e2 k7 n6
                      by (simp add: pre pure store_set_pure Let_def)
                  qed
                qed
              qed
            qed
          qed
        qed
      qed
      qed
    qed
  qed
qed

lemma excit_gen_h_example:
  "excit_gen_h ham_example [[0, 2], [1, 3]] 0 draws_example
   = (Inr (6, [[0, 2], [3, 1]], - 1, Finite (1 / 2)),
      [[0, 2], [1, 3], [3, 2], [2, 3], [1, 3], [1, 3], [1, 3]])"
  by code_simp

text \<open>
  C10: on a store of list objects, \<open>excit_gen\<close>, \<open>calc_excit_mat_parity\<close> and
  \<open>elec_exchange_ops\<close> leave every object that exists at the call as it is, the lists
  passed to them among these: they write to the copies they make and to nothing else,
  also when they raise. What they return is what the functions on list values above
  compute from the content of their arguments.
\<close>

theorem inputs_not_modified:
  "det < length s \<and> excited_det < length s \<longrightarrow>
     store_kept s (snd (excit_gen_h H s det D))
   \<and> snd (excit_gen_h H s det D) ! det = s ! det
   \<and> store_kept s (snd (calc_excit_mat_parity_h s det excited_det))
   \<and> snd (calc_excit_mat_parity_h s det excited_det) ! det = s ! det
   \<and> snd (calc_excit_mat_parity_h s det excited_det) ! excited_det = s ! excited_det
   \<and> store_kept s (snd (elec_exchange_ops_h s det ind))
   \<and> snd (elec_exchange_ops_h s det ind) ! det = s ! det
   \<and> fst (elec_exchange_ops_h s det ind) = elec_exchange_ops (s ! det) ind
   \<and> fst (calc_excit_mat_parity_h s det excited_det) = calc_excit_mat_parity (s ! det) (s ! excited_det)
   \<and> map_sum id (\<lambda>(a, em, par, pr). (snd (excit_gen_h H s det D) ! a, em, par, pr))
        (fst (excit_gen_h H s det D))
      = excit_gen H (s ! det) D"
proof
  assume a: "det < length s \<and> excited_det < length s"
  then have d: "det < length s" and e: "excited_det < length s" by simp_all
  note g = excit_gen_h_both [OF d, of H D]
  note c = calc_excit_mat_parity_h_both [OF d e]
  note x = elec_exchange_ops_h_kept [of s det ind]
  show "store_kept s (snd (excit_gen_h H s det D))
   \<and> snd (excit_gen_h H s det D) ! det = s ! det
   \<and> store_kept s (snd (calc_excit_mat_parity_h s det excited_det))
   \<and> snd (calc_excit_mat_parity_h s det excited_det) ! det = s ! det
   \<and> snd (calc_excit_mat_parity_h s det excited_det) ! excited_det = s ! excited_det
   \<and> store_kept s (snd (elec_exchange_ops_h s det ind))
   \<and> snd (elec_exchange_ops_h s det ind) ! det = s ! det
   \<and> fst (elec_exchange_ops_h s det ind) = elec_exchange_ops (s ! det) ind
   \<and> fst (calc_excit_mat_parity_h s det excited_det) = calc_excit_mat_parity (s ! det) (s ! excited_det)
   \<and> map_sum id (\<lambda>(a, em, par, pr). (snd (excit_gen_h H s det D) ! a, em, par, pr))
        (fst (excit_gen_h H s det D))
      = excit_gen H (s ! det) D"
    using g c x d e elec_exchange_ops_h_pure [OF d, of ind]
      store_kept_nth [of s "snd (excit_gen_h H s det D)" det]
      store_kept_nth [of s "snd (calc_excit_mat_parity_h s det excited_det)" det]
      store_kept_nth [of s "snd (calc_excit_mat_parity_h s det excited_det)" excited_det]
      store_kept_nth [of s "snd (elec_exchange_ops_h s det ind)" det]
    by blast
qed

theorem inputs_not_modified_witness:
  "excit_gen_h ham_example [[0, 2], [1, 3]] 0 draws_example
   = (Inr (6, [[0, 2], [3, 1]], - 1, Finite (1 / 2)),
      [[0, 2], [1, 3], [3, 2], [2, 3], [1, 3], [1, 3], [1, 3]])
   \<and> snd (excit_gen_h ham_example [[0, 2], [1, 3]] 0 draws_example) ! 0 = [0, 2]
   \<and> snd (calc_excit_mat_parity_h [[0, 2], [1, 3]] 0 1) ! 0 = [0, 2]
   \<and> snd (calc_excit_mat_parity_h [[0, 2], [1, 3]] 0 1) ! 1 = [1, 3]
   \<and> snd (elec_exchange_ops_h [[0, 2], [1, 3]] 0 1) ! 0 = [0, 2]
   \<and> excit_gen ham_example [0, 2] draws_example = Inr ([1, 3], [[0, 2], [3, 1]], - 1, Finite (1 / 2))"
  using inputs_not_modified [of 0 "[[0, 2], [1, 3]]" 1 ham_example draws_example 1]
    excit_gen_h_example
  by simp

end
